theory Spec2Isabelle
  imports Complex_Main "HOL-Library.Multiset"
begin

section \<open>Errors and Python list slicing\<close>

text \<open>
  The exceptions that the modelled code can raise.  Every \<open>raise\<close>, failed \<open>assert\<close> and
  failing library call of the source is a value \<open>Inl e\<close> of the model.
\<close>

datatype error =
    AssertionError
  | ValueError
  | IndexError
  | AttributeError
  | IOError
  | InvalidArgumentError

text \<open>
  The slice \<open>xs[:n]\<close> of Python for an arbitrary integer \<open>n\<close>: a negative \<open>n\<close> counts
  from the end of the list.
\<close>

definition py_prefix :: "int \<Rightarrow> 'a list \<Rightarrow> 'a list" where
  "py_prefix n xs =
     (if 0 \<le> n then take (nat n) xs else take (length xs - nat (- n)) xs)"

section \<open>Example.get_dec_inp_targ_seqs\<close>

text \<open>
  \<^verbatim>\<open>
  inp = [start_id] + sequence[:]
  target = sequence[:]
  if len(inp) > max_len: # truncate
      inp = inp[:max_len]
      target = target[:max_len] # no end_token
  else: # no truncation
      target.append(stop_id) # end token
  assert len(inp) == len(target)
  return inp, target
  \<close>
\<close>

definition get_dec_inp_targ_seqs ::
  "int list \<Rightarrow> int \<Rightarrow> int \<Rightarrow> int \<Rightarrow> error + (int list \<times> int list)" where
  "get_dec_inp_targ_seqs sequence max_len start_id stop_id =
     (let inp0 = start_id # sequence;
          target0 = sequence;
          inp = (if int (length inp0) > max_len then py_prefix max_len inp0 else inp0);
          target = (if int (length inp0) > max_len then py_prefix max_len target0
                    else target0 @ [stop_id])
      in if length inp = length target then Inr (inp, target) else Inl AssertionError)"

text \<open>A loop over a list whose body may raise: the first error ends it.\<close>

fun for_each :: "('a \<Rightarrow> error + 'b) \<Rightarrow> 'a list \<Rightarrow> error + 'b list" where
  "for_each f [] = Inr []"
| "for_each f (x # xs) =
     (case f x of
        Inl e \<Rightarrow> Inl e
      | Inr y \<Rightarrow> (case for_each f xs of Inl e \<Rightarrow> Inl e | Inr ys \<Rightarrow> Inr (y # ys)))"

section \<open>Tensor index utilities\<close>

text \<open>
  The functions of \<open>test.py\<close> build a graph of TensorFlow operations.  The model gives
  the value that the graph computes when it is run: a vector is a list, a matrix is the
  list of its rows (all of one length), and each library operation is the function on
  lists that its documentation describes.  An operation that fails when the graph is
  built or run returns \<open>InvalidArgumentError\<close>.  Indices are unbounded integers here;
  the fixed-width index arithmetic of the library agrees with them as long as the number
  of elements of the tensor is below \<open>2^31\<close>.
\<close>

text \<open>\<open>tf.reshape(t, [-1])\<close> of a matrix: its elements in row-major order.\<close>

definition tf_flatten :: "'a list list \<Rightarrow> 'a list" where
  "tf_flatten t = concat t"

text \<open>
  An elementwise binary operation on two vectors.  Vectors of equal length are combined
  position by position, a vector of length one is repeated, anything else is rejected.
\<close>

definition tf_elementwise :: "('a \<Rightarrow> 'b \<Rightarrow> 'c) \<Rightarrow> 'a list \<Rightarrow> 'b list \<Rightarrow> error + 'c list" where
  "tf_elementwise f xs ys =
     (if length xs = length ys then Inr (map2 f xs ys)
      else if length xs = 1 then Inr (map (f (hd xs)) ys)
      else if length ys = 1 then Inr (map (\<lambda>x. f x (hd ys)) xs)
      else Inl InvalidArgumentError)"

text \<open>\<open>tf.gather(flat, idx)\<close> on a vector: an index outside of it is an error.\<close>

definition tf_gather :: "'a list \<Rightarrow> int list \<Rightarrow> error + 'a list" where
  "tf_gather flat idx =
     for_each (\<lambda>i. if 0 \<le> i \<and> i < int (length flat) then Inr (flat ! nat i)
                    else Inl InvalidArgumentError) idx"

text \<open>\<open>tf.shape(t)[1]\<close>: the width of the rows (a matrix without rows has width \<open>0\<close> here).\<close>

definition tf_shape1 :: "'a list list \<Rightarrow> int" where
  "tf_shape1 t = (case t of [] \<Rightarrow> 0 | row # _ \<Rightarrow> int (length row))"

text \<open>
  \<^verbatim>\<open>
  shape0, shape1 = tf.shape(params)[0], tf.shape(params)[1]
  flat = tf.reshape(params, [-1])
  flat_idx = indices1 * shape1 + indices2
  return tf.gather(flat, flat_idx)
  \<close>
\<close>

definition gather_2d :: "'a list list \<Rightarrow> int list \<Rightarrow> int list \<Rightarrow> error + 'a list" where
  "gather_2d params indices1 indices2 =
     (let shape1 = tf_shape1 params;
          flat = tf_flatten params
      in case tf_elementwise (+) (map (\<lambda>i. i * shape1) indices1) indices2 of
           Inl e \<Rightarrow> Inl e
         | Inr flat_idx \<Rightarrow> tf_gather flat flat_idx)"

text \<open>\<open>tf.zeros([r, c])\<close>.\<close>

definition tf_zeros2 :: "int \<Rightarrow> int \<Rightarrow> error + ('a::zero) list list" where
  "tf_zeros2 r c =
     (if r < 0 \<or> c < 0 then Inl InvalidArgumentError
      else Inr (replicate (nat r) (replicate (nat c) 0)))"

text \<open>\<open>tf.reshape(flat, [r, c])\<close> of a vector: the number of elements must be \<open>r * c\<close>.\<close>

definition tf_reshape2 :: "'a list \<Rightarrow> int \<Rightarrow> int \<Rightarrow> error + 'a list list" where
  "tf_reshape2 flat r c =
     (if r < 0 \<or> c < 0 \<or> length flat \<noteq> nat r * nat c then Inl InvalidArgumentError
      else Inr (map (\<lambda>i. take (nat c) (drop (i * nat c) flat)) [0 ..< nat r]))"

text \<open>
  \<open>tf.dynamic_stitch(indices, data)\<close> for lists of vectors:
  \<open>merged[indices[m][i]] = data[m][i]\<close>, the result has \<open>max(indices) + 1\<close> elements, and
  where an index occurs more than once the value of the last occurrence (in the order of
  \<open>m\<close>, then \<open>i\<close>) stays.  A position that no index names is \<open>0\<close> in the model.
\<close>

definition dynamic_stitch :: "int list list \<Rightarrow> ('a::zero) list list \<Rightarrow> error + 'a list" where
  "dynamic_stitch indices data =
     (if length indices \<noteq> length data
         \<or> \<not> list_all (\<lambda>(idx, dat). length idx = length dat) (zip indices data)
         \<or> \<not> list_all (\<lambda>i. 0 \<le> i) (concat indices)
      then Inl InvalidArgumentError
      else
        (let n = (case concat indices of [] \<Rightarrow> 0 | i # js \<Rightarrow> nat (fold max js i) + 1)
         in Inr (fold (\<lambda>(i, v) merged. merged[nat i := v])
                   (concat (map (\<lambda>(idx, dat). zip idx dat) (zip indices data)))
                   (replicate n 0))))"

text \<open>
  \<open>_scatter_nd\<close> (an Isabelle name cannot begin with an underscore):
  \<^verbatim>\<open>
  shape = [batch_size, extended_vsize]
  copy_prob = tf.reshape(tf.zeros(shape, dtype=tf.float32), [-1])
  linear_indices = tf.reshape(batch_nums, [-1]) * extended_vsize  +  tf.reshape(enc_batch, [-1])
  flat_w_copy = tf.reshape(copy_dist, [-1])
  unchanged_indices = tf.range(tf.size(copy_prob))
  flat_vocab_prob = tf.dynamic_stitch([unchanged_indices, linear_indices], [copy_prob, flat_w_copy])
  vocab_copy = tf.reshape(flat_vocab_prob, [batch_size, extended_vsize])
  \<close>
  The floats are only created as \<open>0\<close> and copied, so any type with a zero stands for them.
\<close>

definition scatter_nd ::
  "int list list \<Rightarrow> int \<Rightarrow> int list list \<Rightarrow> int \<Rightarrow> ('a::zero) list list
     \<Rightarrow> error + 'a list list" where
  "scatter_nd enc_batch batch_size batch_nums extended_vsize copy_dist =
     (case tf_zeros2 batch_size extended_vsize of
        Inl e \<Rightarrow> Inl e
      | Inr zeros \<Rightarrow>
     (let copy_prob = tf_flatten zeros
      in
     (case tf_elementwise (+) (map (\<lambda>b. b * extended_vsize) (tf_flatten batch_nums))
             (tf_flatten enc_batch) of
        Inl e \<Rightarrow> Inl e
      | Inr linear_indices \<Rightarrow>
     (let flat_w_copy = tf_flatten copy_dist;
          unchanged_indices = map int [0 ..< length copy_prob]
      in
     (case dynamic_stitch [unchanged_indices, linear_indices] [copy_prob, flat_w_copy] of
        Inl e \<Rightarrow> Inl e
      | Inr flat_vocab_prob \<Rightarrow> tf_reshape2 flat_vocab_prob batch_size extended_vsize)))))"

section \<open>Hyperparameters and external collaborators\<close>

text \<open>
  The fields of \<open>hps\<close> that the batching code reads.
\<close>

record hps =
  mode :: string
  batch_size :: int
  max_enc_steps :: int
  max_dec_steps :: int
  pointer_gen :: bool

text \<open>
  The modules \<open>data\<close> and \<open>nlc_data\<close> and the \<open>Vocabulary\<close> object are imported by
  \<open>batcher.py\<close> but are not part of the verified sources, so everything the code uses
  from them is a parameter: \<open>vocab.word2id\<close>, the special tokens \<open>nlc_data._SOS\<close>,
  \<open>nlc_data._EOS\<close> and \<open>data._PAD\<close>, \<open>data.article2ids\<close> (with the vocabulary applied),
  \<open>data.abstract2ids\<close>, \<open>nlc_data.remove_nonascii\<close>, and \<open>np.random.shuffle\<close> as a function
  of the state \<open>'r\<close> of the random number generator.  The type \<open>'w\<close> is the type of tokens:
  the elements of whatever sequence \<open>remove_nonascii\<close> returns.
\<close>

record ('w, 'b, 'r) ext =
  word2id :: "'w \<Rightarrow> int"
  SOS :: 'w
  EOS :: 'w
  PAD :: 'w
  article2ids :: "'w list \<Rightarrow> int list \<times> 'w list"
  abstract2ids :: "'w list \<Rightarrow> 'w list \<Rightarrow> int list"
  remove_nonascii :: "string \<Rightarrow> 'w list"
  shuffle :: "'r \<Rightarrow> 'b list \<Rightarrow> 'b list \<times> 'r"

section \<open>Example\<close>

text \<open>
  An \<open>Example\<close> object.  The attributes \<open>enc_input_extend_vocab\<close> and \<open>article_oovs\<close>
  exist only when the example was built in pointer-generator mode.
\<close>

record 'w Example =
  ex_hps :: hps
  enc_len :: nat
  enc_input :: "int list"
  dec_input :: "int list"
  target :: "int list"
  dec_len :: nat
  enc_input_extend_vocab :: "int list option"
  article_oovs :: "'w list option"
  original_article :: "'w list"
  original_abstract :: "'w list"
  original_abstract_sents :: "'w list"

text \<open>
  \<open>Example.__init__\<close>.  The constructor fails when the assertion of
  \<open>get_dec_inp_targ_seqs\<close> fails.
\<close>

definition Example_init ::
  "('w, 'b, 'r) ext \<Rightarrow> hps \<Rightarrow> 'w list \<Rightarrow> 'w list \<Rightarrow> error + 'w Example" where
  "Example_init vocab h article abstract_sentences =
     (let start_decoding = word2id vocab (SOS vocab);
          stop_decoding = word2id vocab (EOS vocab);
          article_words = (if int (length article) > max_enc_steps h
                           then py_prefix (max_enc_steps h) article else article);
          abstract_words = abstract_sentences;
          abs_ids = map (word2id vocab) abstract_words
      in case get_dec_inp_targ_seqs abs_ids (max_dec_steps h) start_decoding stop_decoding of
           Inl e \<Rightarrow> Inl e
         | Inr (inp, targ) \<Rightarrow>
             (let self = \<lparr> ex_hps = h,
                           enc_len = length article_words,
                           enc_input = map (word2id vocab) article_words,
                           dec_input = inp,
                           target = targ,
                           dec_len = length inp,
                           enc_input_extend_vocab = None,
                           article_oovs = None,
                           original_article = article,
                           original_abstract = abstract_sentences,
                           original_abstract_sents = abstract_sentences \<rparr>
              in if pointer_gen h then
                   (let ids_oovs = article2ids vocab article_words;
                        abs_ids_extend_vocab =
                          abstract2ids vocab abstract_words (snd ids_oovs)
                    in case get_dec_inp_targ_seqs abs_ids_extend_vocab (max_dec_steps h)
                              start_decoding stop_decoding of
                         Inl e \<Rightarrow> Inl e
                       | Inr (_, targ') \<Rightarrow>
                           Inr (self\<lparr> enc_input_extend_vocab := Some (fst ids_oovs),
                                      article_oovs := Some (snd ids_oovs),
                                      target := targ' \<rparr>))
                 else Inr self))"

text \<open>
  The padding loop \<^verbatim>\<open>while len(xs) < max_len: xs.append(pad_id)\<close>.
\<close>

function pad_loop :: "int list \<Rightarrow> int \<Rightarrow> int \<Rightarrow> int list" where
  "pad_loop xs max_len p =
     (if int (length xs) < max_len then pad_loop (xs @ [p]) max_len p else xs)"
  by pat_completeness auto
termination
  by (relation "measure (\<lambda>(xs, max_len, p). nat (max_len - int (length xs)))") auto

declare pad_loop.simps [simp del]

definition pad_decoder_inp_targ :: "'w Example \<Rightarrow> int \<Rightarrow> int \<Rightarrow> 'w Example" where
  "pad_decoder_inp_targ self max_len p =
     self\<lparr> dec_input := pad_loop (dec_input self) max_len p,
           target := pad_loop (target self) max_len p \<rparr>"

text \<open>
  \<open>pad_encoder_input\<close> reads \<open>self.hps.pointer_gen\<close>, the flag the example was built
  with; an example without the attribute \<open>enc_input_extend_vocab\<close> raises there.
\<close>

definition pad_encoder_input :: "'w Example \<Rightarrow> int \<Rightarrow> int \<Rightarrow> error + 'w Example" where
  "pad_encoder_input self max_len p =
     (let self1 = self\<lparr> enc_input := pad_loop (enc_input self) max_len p \<rparr>
      in if pointer_gen (ex_hps self) then
           (case enc_input_extend_vocab self1 of
              None \<Rightarrow> Inl AttributeError
            | Some v \<Rightarrow> Inr (self1\<lparr> enc_input_extend_vocab := Some (pad_loop v max_len p) \<rparr>))
         else Inr self1)"

section \<open>Batch\<close>

text \<open>
  The numeric arrays of a batch are lists of rows.  The element type \<open>int32\<close> of the
  id arrays is not modelled: the arrays hold the ids and lengths as Python has them.
  The padding mask is an array of floats that only ever holds \<open>0\<close> and \<open>1\<close>.
\<close>

record 'w Batch =
  pad_id :: int
  enc_batch :: "int list list"
  enc_lens :: "nat list"
  max_art_oovs :: "nat option"
  art_oovs :: "'w list list option"
  enc_batch_extend_vocab :: "int list list option"
  dec_batch :: "int list list"
  target_batch :: "int list list"
  padding_mask :: "real list list"
  original_articles :: "'w list list"
  original_abstracts :: "'w list list"
  original_abstracts_sents :: "'w list list"

text \<open>\<open>max\<close> of a Python list: it raises on the empty list.\<close>

definition py_max :: "nat list \<Rightarrow> error + nat" where
  "py_max xs = (case xs of [] \<Rightarrow> Inl ValueError | x # ys \<Rightarrow> Inr (fold max ys x))"

text \<open>\<open>np.zeros\<close> for a vector and for a matrix; a negative dimension raises.\<close>

definition np_zeros1 :: "int \<Rightarrow> error + ('a::zero) list" where
  "np_zeros1 n = (if n < 0 then Inl ValueError else Inr (replicate (nat n) 0))"

definition np_zeros2 :: "int \<Rightarrow> int \<Rightarrow> error + ('a::zero) list list" where
  "np_zeros2 r c =
     (if r < 0 \<or> c < 0 then Inl ValueError
      else Inr (replicate (nat r) (replicate (nat c) 0)))"

text \<open>
  \<open>a[i, :] = row\<close>: the index must exist, and the row must have the width of the
  array or a single element, which numpy repeats along the row.
\<close>

definition set_row :: "'a list list \<Rightarrow> nat \<Rightarrow> 'a list \<Rightarrow> error + 'a list list" where
  "set_row a i row =
     (if i < length a then
        (let n = length (a ! i)
         in if length row = n then Inr (a[i := row])
            else if length row = 1 then Inr (a[i := replicate n (hd row)])
            else Inl ValueError)
      else Inl IndexError)"

text \<open>\<open>a[i] = v\<close> for an index \<open>i \<ge> 0\<close>.\<close>

definition set_item :: "'a list \<Rightarrow> nat \<Rightarrow> 'a \<Rightarrow> error + 'a list" where
  "set_item a i v = (if i < length a then Inr (a[i := v]) else Inl IndexError)"

text \<open>
  The loop that fills \<open>enc_batch\<close> and \<open>enc_lens\<close>; \<open>i\<close> is the counter of \<open>enumerate\<close>.
\<close>

fun fill_encoder ::
  "'w Example list \<Rightarrow> nat \<Rightarrow> int list list \<Rightarrow> nat list
     \<Rightarrow> error + (int list list \<times> nat list)" where
  "fill_encoder [] i eb el = Inr (eb, el)"
| "fill_encoder (ex # exs) i eb el =
     (case set_row eb i (enc_input ex) of
        Inl e \<Rightarrow> Inl e
      | Inr eb' \<Rightarrow>
          (case set_item el i (enc_len ex) of
             Inl e \<Rightarrow> Inl e
           | Inr el' \<Rightarrow> fill_encoder exs (Suc i) eb' el'))"

text \<open>The loop that fills \<open>enc_batch_extend_vocab\<close>.\<close>

fun fill_extend ::
  "'w Example list \<Rightarrow> nat \<Rightarrow> int list list \<Rightarrow> error + int list list" where
  "fill_extend [] i eb = Inr eb"
| "fill_extend (ex # exs) i eb =
     (case enc_input_extend_vocab ex of
        None \<Rightarrow> Inl AttributeError
      | Some v \<Rightarrow>
          (case set_row eb i v of
             Inl e \<Rightarrow> Inl e
           | Inr eb' \<Rightarrow> fill_extend exs (Suc i) eb'))"

text \<open>\<open>len(ex.article_oovs)\<close> for an example of the list.\<close>

definition len_article_oovs :: "'w Example \<Rightarrow> error + nat" where
  "len_article_oovs ex =
     (case article_oovs ex of None \<Rightarrow> Inl AttributeError | Some ws \<Rightarrow> Inr (length ws))"

definition get_article_oovs :: "'w Example \<Rightarrow> error + 'w list" where
  "get_article_oovs ex =
     (case article_oovs ex of None \<Rightarrow> Inl AttributeError | Some ws \<Rightarrow> Inr ws)"

text \<open>
  \<open>Batch.init_encoder_seq\<close>.  It changes the examples (padding) and the batch; both
  are returned.
\<close>

definition init_encoder_seq ::
  "'w Batch \<Rightarrow> 'w Example list \<Rightarrow> hps \<Rightarrow> error + ('w Example list \<times> 'w Batch)" where
  "init_encoder_seq self example_list h =
     (case py_max (map enc_len example_list) of
        Inl e \<Rightarrow> Inl e
      | Inr max_enc_seq_len \<Rightarrow>
     (case for_each (\<lambda>ex. pad_encoder_input ex (int max_enc_seq_len) (pad_id self))
             example_list of
        Inl e \<Rightarrow> Inl e
      | Inr exs \<Rightarrow>
     (case np_zeros2 (batch_size h) (int max_enc_seq_len) of
        Inl e \<Rightarrow> Inl e
      | Inr eb0 \<Rightarrow>
     (case np_zeros1 (batch_size h) of
        Inl e \<Rightarrow> Inl e
      | Inr el0 \<Rightarrow>
     (case fill_encoder exs 0 eb0 el0 of
        Inl e \<Rightarrow> Inl e
      | Inr (eb, el) \<Rightarrow>
          (let self1 = self\<lparr> enc_batch := eb, enc_lens := el \<rparr>
           in if pointer_gen h then
                (case for_each len_article_oovs exs of
                   Inl e \<Rightarrow> Inl e
                 | Inr lens \<Rightarrow>
                (case py_max lens of
                   Inl e \<Rightarrow> Inl e
                 | Inr m \<Rightarrow>
                (case for_each get_article_oovs exs of
                   Inl e \<Rightarrow> Inl e
                 | Inr oovs \<Rightarrow>
                (case np_zeros2 (batch_size h) (int max_enc_seq_len) of
                   Inl e \<Rightarrow> Inl e
                 | Inr ev0 \<Rightarrow>
                (case fill_extend exs 0 ev0 of
                   Inl e \<Rightarrow> Inl e
                 | Inr ev \<Rightarrow>
                     Inr (exs, self1\<lparr> max_art_oovs := Some m,
                                      art_oovs := Some oovs,
                                      enc_batch_extend_vocab := Some ev \<rparr>))))))
              else Inr (exs, self1)))))))"

text \<open>
  The loop \<^verbatim>\<open>for j in xrange(ex.dec_len): self.padding_mask[i][j] = 1\<close>, over the
  list \<open>js\<close> of the values of \<open>j\<close>.
\<close>

fun mask_loop :: "nat list \<Rightarrow> nat \<Rightarrow> real list list \<Rightarrow> error + real list list" where
  "mask_loop [] i pm = Inr pm"
| "mask_loop (j # js) i pm =
     (if i < length pm then
        (case set_item (pm ! i) j 1 of
           Inl e \<Rightarrow> Inl e
         | Inr row \<Rightarrow> mask_loop js i (pm[i := row]))
      else Inl IndexError)"

text \<open>The loop that fills \<open>dec_batch\<close>, \<open>target_batch\<close> and \<open>padding_mask\<close>.\<close>

fun fill_decoder ::
  "'w Example list \<Rightarrow> nat \<Rightarrow> int list list \<Rightarrow> int list list \<Rightarrow> real list list
     \<Rightarrow> error + (int list list \<times> int list list \<times> real list list)" where
  "fill_decoder [] i db tb pm = Inr (db, tb, pm)"
| "fill_decoder (ex # exs) i db tb pm =
     (case set_row db i (dec_input ex) of
        Inl e \<Rightarrow> Inl e
      | Inr db' \<Rightarrow>
     (case set_row tb i (target ex) of
        Inl e \<Rightarrow> Inl e
      | Inr tb' \<Rightarrow>
     (case mask_loop [0 ..< dec_len ex] i pm of
        Inl e \<Rightarrow> Inl e
      | Inr pm' \<Rightarrow> fill_decoder exs (Suc i) db' tb' pm')))"

text \<open>\<open>Batch.init_decoder_seq\<close>.\<close>

definition init_decoder_seq ::
  "'w Batch \<Rightarrow> 'w Example list \<Rightarrow> hps \<Rightarrow> error + ('w Example list \<times> 'w Batch)" where
  "init_decoder_seq self example_list h =
     (let exs = map (\<lambda>ex. pad_decoder_inp_targ ex (max_dec_steps h) (pad_id self))
                  example_list
      in
     (case np_zeros2 (batch_size h) (max_dec_steps h) of
        Inl e \<Rightarrow> Inl e
      | Inr db0 \<Rightarrow>
     (case np_zeros2 (batch_size h) (max_dec_steps h) of
        Inl e \<Rightarrow> Inl e
      | Inr tb0 \<Rightarrow>
     (case np_zeros2 (batch_size h) (max_dec_steps h) of
        Inl e \<Rightarrow> Inl e
      | Inr pm0 \<Rightarrow>
     (case fill_decoder exs 0 db0 tb0 pm0 of
        Inl e \<Rightarrow> Inl e
      | Inr (db, tb, pm) \<Rightarrow>
          Inr (exs, self\<lparr> dec_batch := db, target_batch := tb, padding_mask := pm \<rparr>))))))"

text \<open>\<open>Batch.store_orig_strings\<close>.\<close>

definition store_orig_strings :: "'w Batch \<Rightarrow> 'w Example list \<Rightarrow> 'w Batch" where
  "store_orig_strings self example_list =
     self\<lparr> original_articles := map original_article example_list,
           original_abstracts := map original_abstract example_list,
           original_abstracts_sents := map original_abstract_sents example_list \<rparr>"

text \<open>
  \<open>Batch.__init__\<close>.  The attributes that the constructor has not yet set are empty
  in the record.  The examples of the list are objects that the constructor changes
  in place; the result holds them as they are afterwards, next to the batch.
\<close>

definition Batch_init ::
  "'w Example list \<Rightarrow> hps \<Rightarrow> ('w, 'b, 'r) ext
     \<Rightarrow> error + ('w Example list \<times> 'w Batch)" where
  "Batch_init example_list h vocab =
     (let self = \<lparr> pad_id = word2id vocab (PAD vocab),
                   enc_batch = [], enc_lens = [],
                   max_art_oovs = None, art_oovs = None, enc_batch_extend_vocab = None,
                   dec_batch = [], target_batch = [], padding_mask = [],
                   original_articles = [], original_abstracts = [],
                   original_abstracts_sents = [] \<rparr>
      in case init_encoder_seq self example_list h of
           Inl e \<Rightarrow> Inl e
         | Inr (exs1, self1) \<Rightarrow>
             (case init_decoder_seq self1 exs1 h of
                Inl e \<Rightarrow> Inl e
              | Inr (exs2, self2) \<Rightarrow> Inr (exs2, store_orig_strings self2 exs2)))"

section \<open>Well-formed examples\<close>

text \<open>
  What \<open>Example.__init__\<close> establishes for hyperparameters \<open>h\<close> with
  \<open>max_dec_steps \<ge> 0\<close>, and what \<open>Batch.__init__\<close> relies on.
\<close>

definition Example_ok :: "hps \<Rightarrow> 'w Example \<Rightarrow> bool" where
  "Example_ok h ex \<longleftrightarrow>
       ex_hps ex = h
     \<and> length (enc_input ex) = enc_len ex
     \<and> int (length (dec_input ex)) \<le> max_dec_steps h
     \<and> int (length (target ex)) \<le> max_dec_steps h
     \<and> dec_len ex = length (dec_input ex)
     \<and> (pointer_gen h \<longrightarrow>
          (case enc_input_extend_vocab ex of None \<Rightarrow> False | Some v \<Rightarrow> length v = enc_len ex)
          \<and> article_oovs ex \<noteq> None)"

text \<open>The example as \<open>pad_encoder_input\<close> leaves it when it does not raise.\<close>

definition padded_encoder :: "'w Example \<Rightarrow> int \<Rightarrow> int \<Rightarrow> 'w Example" where
  "padded_encoder ex m p =
     ex\<lparr> enc_input := pad_loop (enc_input ex) m p,
         enc_input_extend_vocab :=
           (if pointer_gen (ex_hps ex)
            then map_option (\<lambda>v. pad_loop v m p) (enc_input_extend_vocab ex)
            else enc_input_extend_vocab ex) \<rparr>"

text \<open>The line terminator of the input files.\<close>

definition newline :: char where
  "newline = CHR 0x0A"

section \<open>An instance of the external collaborators\<close>

text \<open>\<open>xs.index(w)\<close> for an element \<open>w\<close> of \<open>xs\<close>.\<close>

definition index_of :: "'a list \<Rightarrow> 'a \<Rightarrow> nat" where
  "index_of xs w = length (takeWhile (\<lambda>x. x \<noteq> w) xs)"

text \<open>
  Modelled from the spec: \<open>data.article2ids\<close> and \<open>data.abstract2ids\<close> are not part of
  the verified sources.  The spec says that the extended-vocabulary encoding gives
  article-local OOV tokens temporary ids beyond the fixed vocabulary size, scoped to a single
  article: a token whose id is the unknown-token id gets \<open>vsize\<close> plus its position in the
  list of the article's distinct OOV tokens, and an abstract token gets that id when it is
  one of the article's OOV tokens.
\<close>

fun article2ids_loop ::
  "('w \<Rightarrow> int) \<Rightarrow> int \<Rightarrow> int \<Rightarrow> 'w list \<Rightarrow> int list \<Rightarrow> 'w list \<Rightarrow> int list \<times> 'w list" where
  "article2ids_loop w2i unk vsize [] ids oovs = (ids, oovs)"
| "article2ids_loop w2i unk vsize (w # ws) ids oovs =
     (if w2i w = unk then
        (let oovs' = (if w \<in> set oovs then oovs else oovs @ [w])
         in article2ids_loop w2i unk vsize ws (ids @ [vsize + int (index_of oovs' w)]) oovs')
      else article2ids_loop w2i unk vsize ws (ids @ [w2i w]) oovs)"

definition article2ids_model :: "('w \<Rightarrow> int) \<Rightarrow> int \<Rightarrow> int \<Rightarrow> 'w list \<Rightarrow> int list \<times> 'w list" where
  "article2ids_model w2i unk vsize ws = article2ids_loop w2i unk vsize ws [] []"

definition abstract2ids_model ::
  "('w \<Rightarrow> int) \<Rightarrow> int \<Rightarrow> int \<Rightarrow> 'w list \<Rightarrow> 'w list \<Rightarrow> int list" where
  "abstract2ids_model w2i unk vsize ws oovs =
     map (\<lambda>w. if w2i w = unk then
                 (if w \<in> set oovs then vsize + int (index_of oovs w) else unk)
               else w2i w) ws"

text \<open>
  A small vocabulary over characters (padding \<open>0\<close>, unknown \<open>1\<close>, start \<open>2\<close>, stop \<open>3\<close>,
  and the letters \<open>a\<close> and \<open>b\<close>), a \<open>remove_nonascii\<close> that drops the line terminator,
  and a shuffle that reverses.
\<close>

definition demo_word2id :: "char \<Rightarrow> int" where
  "demo_word2id w =
     (if w = CHR ''_'' then 0 else if w = CHR ''^'' then 2 else if w = CHR ''$'' then 3
      else if w = CHR ''a'' then 4 else if w = CHR ''b'' then 5 else 1)"

definition demo_vocab :: "(char, char Batch, nat) ext" where
  "demo_vocab =
     \<lparr> word2id = demo_word2id, SOS = CHR ''^'', EOS = CHR ''$'', PAD = CHR ''_'',
       article2ids = article2ids_model demo_word2id 1 6,
       abstract2ids = abstract2ids_model demo_word2id 1 6,
       remove_nonascii = filter (\<lambda>c. c \<noteq> newline),
       shuffle = (\<lambda>r bs. (rev bs, r)) \<rparr>"

definition demo_hps :: hps where
  "demo_hps = \<lparr> mode = ''train'', batch_size = 2, max_enc_steps = 3, max_dec_steps = 3,
                pointer_gen = True \<rparr>"

text \<open>Hyperparameters for decode mode, for the vocabulary above.\<close>

definition demo_decode_hps :: hps where
  "demo_decode_hps = \<lparr> mode = ''decode'', batch_size = 2, max_enc_steps = 3, max_dec_steps = 3,
                       pointer_gen = True \<rparr>"

section \<open>Batcher\<close>

text \<open>
  An open file is the part of its contents that has not been read yet.  \<open>readline\<close>
  returns the next line with its terminator (the rest of the file when no terminator is
  left, the empty string at the end of the file) and the file after it.
\<close>

definition readline :: "string \<Rightarrow> string \<times> string" where
  "readline fd =
     (case dropWhile (\<lambda>c. c \<noteq> newline) fd of
        [] \<Rightarrow> (fd, [])
      | c # rest \<Rightarrow> (takeWhile (\<lambda>c. c \<noteq> newline) fd @ [c], rest))"

text \<open>
  What the iteration changes: the list \<open>self.batches\<close>, the two open files, the state
  of the random number generator that \<open>np.random.shuffle\<close> draws from, and the warnings
  logged so far.
\<close>

record ('w, 'r) Batcher =
  batches :: "'w Batch list"
  fdx :: string
  fdy :: string
  rng :: 'r
  warnings :: "string list"

definition empty_article_warning :: string where
  "empty_article_warning = ''Found an example with empty article text. Skipping it.''"

text \<open>
  The \<open>while linex and liney\<close> loop of \<open>refill\<close> outside decode mode.  \<open>linex\<close> and
  \<open>liney\<close> are the lines read last, \<open>fx\<close> and \<open>fy\<close> the files after them.
\<close>

function read_loop ::
  "('w, 'b, 'r) ext \<Rightarrow> hps \<Rightarrow> string \<Rightarrow> string \<Rightarrow> string \<Rightarrow> string
     \<Rightarrow> 'w Example list \<Rightarrow> string list
     \<Rightarrow> error + (string \<times> string \<times> 'w Example list \<times> string list)" where
  "read_loop vocab h linex liney fx fy inputs warns =
     (if linex \<noteq> [] \<and> liney \<noteq> [] then
        (if length (remove_nonascii vocab linex) = 0 then
           read_loop vocab h (fst (readline fx)) (fst (readline fy))
             (snd (readline fx)) (snd (readline fy))
             inputs (warns @ [empty_article_warning])
         else
           (case Example_init vocab h (remove_nonascii vocab linex)
                   (remove_nonascii vocab liney) of
              Inl e \<Rightarrow> Inl e
            | Inr example \<Rightarrow>
                (if int (length (inputs @ [example])) = batch_size h * 16
                 then Inr (fx, fy, inputs @ [example], warns)
                 else read_loop vocab h (fst (readline fx)) (fst (readline fy))
                        (snd (readline fx)) (snd (readline fy))
                        (inputs @ [example]) warns)))
      else Inr (fx, fy, inputs, warns))"
  by pat_completeness auto
termination
proof (relation "measure (\<lambda>(vocab, h, linex, liney, fx, fy, inputs, warns).
                    length linex + length fx)", goal_cases)
  case 1
  show ?case by simp
next
  have readline_length: "length (fst (readline s)) + length (snd (readline s)) = length s"
    for s
  proof -
    have "length (takeWhile (\<lambda>c. c \<noteq> newline) s) + length (dropWhile (\<lambda>c. c \<noteq> newline) s)
            = length s"
      by (metis length_append takeWhile_dropWhile_id)
    then show ?thesis
      by (auto simp: readline_def split: list.splits)
  qed
  {
    case (2 vocab h linex liney fx fy inputs warns)
    then have "0 < length linex" by simp
    then have "length (fst (readline fx)) + length (snd (readline fx)) < length linex + length fx"
      by (simp add: readline_length)
    then show ?case by simp
  next
    case (3 vocab h linex liney fx fy inputs warns example)
    then have "0 < length linex" by simp
    then have "length (fst (readline fx)) + length (snd (readline fx)) < length linex + length fx"
      by (simp add: readline_length)
    then show ?case by simp
  }
qed

declare read_loop.simps [simp del]

text \<open>
  \<open>xrange(0, stop, step)\<close>: a step of zero raises, a negative step gives no value for
  \<open>stop \<ge> 0\<close>.
\<close>

function xrange_from :: "nat \<Rightarrow> nat \<Rightarrow> nat \<Rightarrow> nat list" where
  "xrange_from start stop step =
     (if 0 < step \<and> start < stop then start # xrange_from (start + step) stop step else [])"
  by pat_completeness auto
termination
  by (relation "measure (\<lambda>(start, stop, step). stop - start)") auto

declare xrange_from.simps [simp del]

definition xrange0 :: "nat \<Rightarrow> int \<Rightarrow> error + nat list" where
  "xrange0 stop step =
     (if step = 0 then Inl ValueError
      else if step < 0 then Inr []
      else Inr (xrange_from 0 stop (nat step)))"

text \<open>
  The \<open>while linex and liney\<close> loop of \<open>refill\<close> in decode mode.  It reads no further
  line; it ends when the batch has \<open>batch_size\<close> examples, and runs forever when that
  never happens, which is the value \<open>None\<close>.
\<close>

partial_function (option) decode_loop ::
  "('w, 'b, 'r) ext \<Rightarrow> hps \<Rightarrow> string \<Rightarrow> string \<Rightarrow> 'w Example list
     \<Rightarrow> (error + 'w Example list) option" where
  "decode_loop vocab h linex liney batch =
     (if linex \<noteq> [] \<and> liney \<noteq> [] then
        (case Example_init vocab h (remove_nonascii vocab linex)
                (remove_nonascii vocab liney) of
           Inl e \<Rightarrow> Some (Inl e)
         | Inr example \<Rightarrow>
             (if int (length (batch @ [example])) = batch_size h
              then Some (Inr (batch @ [example]))
              else decode_loop vocab h linex liney (batch @ [example])))
      else Some (Inr batch))"

declare decode_loop.simps [code]

text \<open>
  \<open>Batcher.refill\<close>.  \<open>sorted\<close> is stable, as \<open>sort_key\<close> is.  An exception ends the
  generator, so the state is only returned when there is none.
\<close>

definition refill ::
  "('w, 'w Batch, 'r) ext \<Rightarrow> hps \<Rightarrow> bool \<Rightarrow> ('w, 'r) Batcher
     \<Rightarrow> (error + ('w, 'r) Batcher) option" where
  "refill vocab h single_pass self =
     (if mode h \<noteq> ''decode'' then
        (case read_loop vocab h (fst (readline (fdx self))) (fst (readline (fdy self)))
                (snd (readline (fdx self))) (snd (readline (fdy self))) [] (warnings self) of
           Inl e \<Rightarrow> Some (Inl e)
         | Inr (fx, fy, inputs0, warns) \<Rightarrow>
        (let inputs = (if \<not> single_pass then sort_key enc_len inputs0 else inputs0)
         in
        (case xrange0 (length inputs) (batch_size h) of
           Inl e \<Rightarrow> Some (Inl e)
         | Inr starts \<Rightarrow>
        (let cur_batches = map (\<lambda>batch_start. take (nat (batch_size h)) (drop batch_start inputs))
                             starts
         in
        (case for_each (\<lambda>b. Batch_init b h vocab) cur_batches of
           Inl e \<Rightarrow> Some (Inl e)
         | Inr built \<Rightarrow>
        (let bs = batches self @ map snd built;
             shuffled = (if \<not> single_pass then shuffle vocab (rng self) bs else (bs, rng self))
         in Some (Inr (self\<lparr> batches := fst shuffled, fdx := fx, fdy := fy,
                             rng := snd shuffled, warnings := warns \<rparr>))))))))
      else
        (case decode_loop vocab h (fst (readline (fdx self))) (fst (readline (fdy self))) [] of
           None \<Rightarrow> None
         | Some (Inl e) \<Rightarrow> Some (Inl e)
         | Some (Inr batch) \<Rightarrow>
             (case Batch_init batch h vocab of
                Inl e \<Rightarrow> Some (Inl e)
              | Inr (exs, b) \<Rightarrow>
                  Some (Inr (self\<lparr> batches := batches self @ [b],
                                   fdx := snd (readline (fdx self)),
                                   fdy := snd (readline (fdy self)) \<rparr>)))))"

text \<open>
  The \<open>while True\<close> loop of the generator \<open>pair_iter\<close>, run until the generator is
  exhausted: the result is the list of the batches it yields, and the exception that ended
  it or the final state when it returned.
\<close>

partial_function (option) pair_iter_loop ::
  "('w, 'w Batch, 'r) ext \<Rightarrow> hps \<Rightarrow> bool \<Rightarrow> ('w, 'r) Batcher \<Rightarrow> 'w Batch list
     \<Rightarrow> ('w Batch list \<times> (error + ('w, 'r) Batcher)) option" where
  "pair_iter_loop vocab h single_pass self yielded =
     (case (if length (batches self) = 0 then refill vocab h single_pass self
            else Some (Inr self)) of
        None \<Rightarrow> None
      | Some (Inl e) \<Rightarrow> Some (yielded, Inl e)
      | Some (Inr self1) \<Rightarrow>
          (case batches self1 of
             [] \<Rightarrow> Some (yielded, Inr self1)
           | batch # rest \<Rightarrow>
               pair_iter_loop vocab h single_pass (self1\<lparr> batches := rest \<rparr>)
                 (yielded @ [batch])))"

declare pair_iter_loop.simps [code]

text \<open>
  \<open>Batcher.pair_iter\<close>.  \<open>files\<close> maps the path of a file to its contents; \<open>open\<close>
  raises for a path without a file.
\<close>

definition pair_iter ::
  "(string \<Rightarrow> string option) \<Rightarrow> string \<Rightarrow> ('w, 'w Batch, 'r) ext \<Rightarrow> hps \<Rightarrow> bool \<Rightarrow> 'r
     \<Rightarrow> ('w Batch list \<times> (error + ('w, 'r) Batcher)) option" where
  "pair_iter files data_path vocab h single_pass seed =
     (case files (data_path @ ''.x.txt'') of
        None \<Rightarrow> Some ([], Inl IOError)
      | Some cx \<Rightarrow>
          (case files (data_path @ ''.y.txt'') of
             None \<Rightarrow> Some ([], Inl IOError)
           | Some cy \<Rightarrow>
               pair_iter_loop vocab h single_pass
                 \<lparr> batches = [], fdx = cx, fdy = cy, rng = seed, warnings = [] \<rparr> []))"

text \<open>
  Two pairs of input files under the path \<open>d\<close>: one where the article file has a line
  more than the abstract file, and one with two lines each.
\<close>

definition mismatched_files :: "string \<Rightarrow> string option" where
  "mismatched_files =
     [''d.x.txt'' \<mapsto> [CHR ''a'', CHR ''b'', newline, CHR ''b'', newline],
      ''d.y.txt'' \<mapsto> [CHR ''a'', newline]]"

definition aligned_files :: "string \<Rightarrow> string option" where
  "aligned_files =
     [''d.x.txt'' \<mapsto> [CHR ''a'', CHR ''b'', newline, CHR ''b'', newline],
      ''d.y.txt'' \<mapsto> [CHR ''a'', newline, CHR ''b'', newline]]"

section \<open>Decoder input and target sequences\<close>

lemma py_prefix_nonneg: "0 \<le> n \<Longrightarrow> py_prefix n xs = take (nat n) xs"
  by (simp add: py_prefix_def)

lemma get_dec_inp_targ_seqs_short:
  "1 + int (length s) \<le> m \<Longrightarrow> get_dec_inp_targ_seqs s m a z = Inr (a # s, s @ [z])"
  by (simp add: get_dec_inp_targ_seqs_def Let_def)

lemma get_dec_inp_targ_seqs_long:
  assumes "0 \<le> m" and "m < 1 + int (length s)"
  shows "get_dec_inp_targ_seqs s m a z = Inr (take (nat m) (a # s), take (nat m) s)"
proof -
  have "nat m \<le> length s" using assms by linarith
  then have "length (take (nat m) (a # s)) = length (take (nat m) s)" by simp
  then show ?thesis
    using assms by (simp add: get_dec_inp_targ_seqs_def Let_def py_prefix_nonneg)
qed

text \<open>
  C1 (as the code has it).  For \<open>max_len \<ge> 1\<close> the decoder input starts with \<open>start_id\<close>
  and has at most \<open>max_len\<close> entries, and the target is as long as the input.  Without
  truncation the target is the sequence followed by \<open>stop_id\<close>; with truncation it is
  the first \<open>max_len\<close> ids of the sequence and nothing is appended, so that it ends
  with \<open>stop_id\<close> exactly when the id at the cut position happens to be \<open>stop_id\<close>.
\<close>

theorem get_dec_inp_targ_seqs_sentinels:
  assumes "1 \<le> max_len"
  shows "\<exists>inp target.
           get_dec_inp_targ_seqs s max_len start_id stop_id = Inr (inp, target)
         \<and> inp \<noteq> [] \<and> hd inp = start_id
         \<and> int (length inp) \<le> max_len
         \<and> length target = length inp
         \<and> (if 1 + int (length s) \<le> max_len then target = s @ [stop_id]
            else target = take (nat max_len) s)
         \<and> (last target = stop_id
              \<longleftrightarrow> 1 + int (length s) \<le> max_len \<or> s ! (nat max_len - 1) = stop_id)"
proof (cases "1 + int (length s) \<le> max_len")
  case True
  then show ?thesis
    by (simp add: get_dec_inp_targ_seqs_short)
next
  case False
  then have lt: "max_len < 1 + int (length s)" by simp
  from assms have nn: "0 \<le> max_len" by simp
  obtain k where k: "nat max_len = Suc k" using assms by (cases "nat max_len") auto
  have kl: "k < length s" using lt k by linarith
  have r: "get_dec_inp_targ_seqs s max_len start_id stop_id
             = Inr (start_id # take k s, take (Suc k) s)"
    using get_dec_inp_targ_seqs_long [OF nn lt, of start_id stop_id] by (simp add: k)
  have len: "int (length (start_id # take k s)) \<le> max_len"
    using kl k by simp
  have same: "length (take (Suc k) s) = length (start_id # take k s)"
    using kl by simp
  have lst: "last (take (Suc k) s) = s ! k"
    using kl by (simp add: take_Suc_conv_app_nth)
  show ?thesis
    using False r len same lst by (simp add: k)
qed

theorem get_dec_inp_targ_seqs_sentinels_witness:
  "(1::int) \<le> 2
   \<and> get_dec_inp_targ_seqs [7, 8, 9] 2 1 0 = Inr ([1, 7], [7, 8])
   \<and> (\<exists>inp target.
         get_dec_inp_targ_seqs [7, 8, 9] 2 1 0 = Inr (inp, target)
       \<and> inp \<noteq> [] \<and> hd inp = 1
       \<and> int (length inp) \<le> 2
       \<and> length target = length inp
       \<and> (if 1 + int (length [7, 8, 9 :: int]) \<le> 2 then target = [7, 8, 9] @ [0]
          else target = take (nat 2) [7, 8, 9])
       \<and> (last target = 0
            \<longleftrightarrow> 1 + int (length [7, 8, 9 :: int]) \<le> 2 \<or> [7, 8, 9] ! (nat 2 - 1) = (0::int)))"
proof -
  have h: "(1::int) \<le> 2" by simp
  have e: "get_dec_inp_targ_seqs [7, 8, 9] 2 1 0 = Inr ([1, 7], [7, 8])"
    by (simp add: get_dec_inp_targ_seqs_def py_prefix_def Let_def)
  show ?thesis
    using h e get_dec_inp_targ_seqs_sentinels [OF h, of "[7, 8, 9]" 1 0] by blast
qed

text \<open>
  C1 (as the claim words it) fails: a truncated target can end with \<open>stop_id\<close>.  With
  \<open>sequence = [5, 7]\<close>, \<open>max_len = 1\<close>, \<open>start_id = 0\<close> and \<open>stop_id = 5\<close> the sequence is
  truncated (\<open>1 + 2 > 1\<close>) and the target is \<open>[5]\<close>, whose last id is the stop id.
\<close>

theorem get_dec_inp_targ_seqs_truncated_ends_with_stop:
  "get_dec_inp_targ_seqs [5, 7] 1 0 5 = Inr ([0], [5])
   \<and> last [5 :: int] = 5
   \<and> \<not> (1 + int (length [5, 7 :: int]) \<le> 1)"
  by (simp add: get_dec_inp_targ_seqs_def py_prefix_def Let_def)

section \<open>Padding and batch assembly\<close>

lemma pad_loop_eq: "pad_loop xs m p = xs @ replicate (nat (m - int (length xs))) p"
proof (induction xs m p rule: pad_loop.induct)
  case (1 xs m p)
  show ?case
  proof (cases "int (length xs) < m")
    case True
    then have "nat (m - int (length xs)) = Suc (nat (m - int (length (xs @ [p]))))"
      by simp
    with True 1 show ?thesis
      by (subst pad_loop.simps) (simp add: replicate_app_Cons_same)
  next
    case False
    then show ?thesis by (subst pad_loop.simps) simp
  qed
qed

lemma length_pad_loop: "length (pad_loop xs m p) = max (length xs) (nat m)"
  by (simp add: pad_loop_eq)

lemma py_max_Max: "xs \<noteq> [] \<Longrightarrow> py_max xs = Inr (Max (set xs))"
proof (cases xs)
  case Nil
  assume "xs \<noteq> []"
  with Nil show ?thesis by simp
next
  case (Cons a list)
  then show ?thesis
    using Max.set_eq_fold [of a list] by (simp add: py_max_def)
qed

lemma for_each_total:
  "(\<And>x. x \<in> set xs \<Longrightarrow> f x = Inr (g x)) \<Longrightarrow> for_each f xs = Inr (map g xs)"
  by (induction xs) simp_all

lemma set_row_same:
  "i < length a \<Longrightarrow> length row = length (a ! i) \<Longrightarrow> set_row a i row = Inr (a[i := row])"
  by (simp add: set_row_def)

lemma take_Suc_update: "i < length xs \<Longrightarrow> take (Suc i) (xs[i := v]) = take i xs @ [v]"
  by (simp add: take_Suc_conv_app_nth)

lemma fill_encoder_ok:
  assumes "i + length exs \<le> length eb" and "length el = length eb"
      and "\<forall>r \<in> set eb. length r = n" and "\<forall>ex \<in> set exs. length (enc_input ex) = n"
  shows "fill_encoder exs i eb el =
           Inr (take i eb @ map enc_input exs @ drop (i + length exs) eb,
                take i el @ map enc_len exs @ drop (i + length exs) el)"
  using assms
proof (induction exs arbitrary: i eb el)
  case Nil
  then show ?case by simp
next
  case (Cons ex exs)
  then have i: "i < length eb" "i < length el" by simp_all
  have row: "set_row eb i (enc_input ex) = Inr (eb[i := enc_input ex])"
    using Cons.prems i by (simp add: set_row_same)
  have item: "set_item el i (enc_len ex) = Inr (el[i := enc_len ex])"
    using i by (simp add: set_item_def)
  have rows: "\<forall>r \<in> set (eb[i := enc_input ex]). length r = n"
    using Cons.prems by (auto dest!: set_update_subset_insert [THEN subsetD])
  have "fill_encoder exs (Suc i) (eb[i := enc_input ex]) (el[i := enc_len ex]) =
          Inr (take (Suc i) (eb[i := enc_input ex]) @ map enc_input exs
                 @ drop (Suc i + length exs) (eb[i := enc_input ex]),
               take (Suc i) (el[i := enc_len ex]) @ map enc_len exs
                 @ drop (Suc i + length exs) (el[i := enc_len ex]))"
    using Cons.prems rows by (intro Cons.IH) simp_all
  then show ?case
    using i by (simp add: row item take_Suc_update)
qed

lemma fill_extend_ok:
  assumes "i + length exs \<le> length eb"
      and "\<forall>r \<in> set eb. length r = n"
      and "\<forall>ex \<in> set exs. enc_input_extend_vocab ex = Some (g ex) \<and> length (g ex) = n"
  shows "fill_extend exs i eb = Inr (take i eb @ map g exs @ drop (i + length exs) eb)"
  using assms
proof (induction exs arbitrary: i eb)
  case Nil
  then show ?case by simp
next
  case (Cons ex exs)
  then have i: "i < length eb" by simp
  have v: "enc_input_extend_vocab ex = Some (g ex)" "length (g ex) = n"
    using Cons.prems by simp_all
  have row: "set_row eb i (g ex) = Inr (eb[i := g ex])"
    using Cons.prems i v by (simp add: set_row_same)
  have rows: "\<forall>r \<in> set (eb[i := g ex]). length r = n"
    using Cons.prems v by (auto dest!: set_update_subset_insert [THEN subsetD])
  have "fill_extend exs (Suc i) (eb[i := g ex]) =
          Inr (take (Suc i) (eb[i := g ex]) @ map g exs
                 @ drop (Suc i + length exs) (eb[i := g ex]))"
    using Cons.prems rows by (intro Cons.IH) simp_all
  then show ?case
    using i by (simp add: v row take_Suc_update)
qed

lemma pad_encoder_input_ok:
  "(pointer_gen (ex_hps ex) \<longrightarrow> enc_input_extend_vocab ex \<noteq> None)
     \<Longrightarrow> pad_encoder_input ex m p = Inr (padded_encoder ex m p)"
  by (auto simp: pad_encoder_input_def padded_encoder_def Let_def split: option.splits)

lemma mask_loop_ok:
  assumes "i < length pm" and "\<forall>j \<in> set js. j < length (pm ! i)"
  shows "mask_loop js i pm = Inr (pm[i := fold (\<lambda>j row. row[j := 1]) js (pm ! i)])"
  using assms
proof (induction js arbitrary: pm)
  case Nil
  then show ?case by simp
next
  case (Cons j js)
  then have "mask_loop js i (pm[i := (pm ! i)[j := 1]]) =
      Inr ((pm[i := (pm ! i)[j := 1]])[i := fold (\<lambda>j row. row[j := 1]) js ((pm[i := (pm ! i)[j := 1]]) ! i)])"
    by (intro Cons.IH) simp_all
  then show ?case
    using Cons.prems by (simp add: set_item_def)
qed

lemma length_fold_update: "length (fold (\<lambda>j row. row[j := v]) js row) = length row"
  by (induction js arbitrary: row) simp_all

lemma rows_update:
  "\<forall>r \<in> set a. length r = n \<Longrightarrow> length row = n \<Longrightarrow> \<forall>r \<in> set (a[i := row]). length r = n"
  by (auto dest!: set_update_subset_insert [THEN subsetD])

lemma fill_decoder_ok:
  assumes "i + length exs \<le> length db" and "length tb = length db" and "length pm = length db"
      and "\<forall>r \<in> set db. length r = n" and "\<forall>r \<in> set tb. length r = n"
      and "\<forall>r \<in> set pm. length r = n"
      and "\<forall>ex \<in> set exs. length (dec_input ex) = n \<and> length (target ex) = n \<and> dec_len ex \<le> n"
  shows "\<exists>pm'. fill_decoder exs i db tb pm =
           Inr (take i db @ map dec_input exs @ drop (i + length exs) db,
                take i tb @ map target exs @ drop (i + length exs) tb, pm')
         \<and> length pm' = length pm \<and> (\<forall>r \<in> set pm'. length r = n)"
  using assms
proof (induction exs arbitrary: i db tb pm)
  case Nil
  then show ?case by simp
next
  case (Cons ex exs)
  then have i: "i < length db" "i < length tb" "i < length pm" by simp_all
  have ex: "length (dec_input ex) = n" "length (target ex) = n" "dec_len ex \<le> n"
    using Cons.prems by simp_all
  have n: "length (db ! i) = n" "length (tb ! i) = n" "length (pm ! i) = n"
    using Cons.prems i by simp_all
  have rd: "set_row db i (dec_input ex) = Inr (db[i := dec_input ex])"
    using i ex n by (simp add: set_row_same)
  have rt: "set_row tb i (target ex) = Inr (tb[i := target ex])"
    using i ex n by (simp add: set_row_same)
  define row where "row = fold (\<lambda>j row. row[j := 1]) [0 ..< dec_len ex] (pm ! i)"
  have rm: "mask_loop [0 ..< dec_len ex] i pm = Inr (pm[i := row])"
    unfolding row_def using i ex n by (intro mask_loop_ok) simp_all
  have lrow: "length row = n"
    by (simp add: row_def length_fold_update n)
  have "\<exists>pm'. fill_decoder exs (Suc i) (db[i := dec_input ex]) (tb[i := target ex]) (pm[i := row]) =
           Inr (take (Suc i) (db[i := dec_input ex]) @ map dec_input exs
                   @ drop (Suc i + length exs) (db[i := dec_input ex]),
                take (Suc i) (tb[i := target ex]) @ map target exs
                   @ drop (Suc i + length exs) (tb[i := target ex]), pm')
         \<and> length pm' = length (pm[i := row]) \<and> (\<forall>r \<in> set pm'. length r = n)"
    using Cons.prems ex lrow by (intro Cons.IH rows_update) simp_all
  then show ?case
    using i by (simp add: rd rt rm take_Suc_update)
qed

lemma get_dec_inp_targ_seqs_nonneg:
  assumes "0 \<le> m"
  shows "\<exists>inp targ. get_dec_inp_targ_seqs s m a z = Inr (inp, targ)
           \<and> int (length inp) \<le> m \<and> length targ = length inp"
proof (cases "1 + int (length s) \<le> m")
  case True
  then show ?thesis by (simp add: get_dec_inp_targ_seqs_short)
next
  case False
  then have lt: "m < 1 + int (length s)" by simp
  then have "nat m \<le> length s" using assms by linarith
  then show ?thesis
    using assms by (simp add: get_dec_inp_targ_seqs_long [OF assms lt])
qed

lemma Example_init_ok:
  assumes "0 \<le> max_dec_steps h"
      and "pointer_gen h \<longrightarrow> (\<forall>ws. length (fst (article2ids vocab ws)) = length ws)"
  shows "\<exists>ex. Example_init vocab h a b = Inr ex \<and> Example_ok h ex
           \<and> enc_input ex = map (word2id vocab)
                (if int (length a) > max_enc_steps h then py_prefix (max_enc_steps h) a else a)
           \<and> original_article ex = a \<and> original_abstract ex = b
           \<and> original_abstract_sents ex = b"
proof -
  define aw where "aw = (if int (length a) > max_enc_steps h then py_prefix (max_enc_steps h) a else a)"
  obtain inp targ where 1:
    "get_dec_inp_targ_seqs (map (word2id vocab) b) (max_dec_steps h)
        (word2id vocab (SOS vocab)) (word2id vocab (EOS vocab)) = Inr (inp, targ)"
    "int (length inp) \<le> max_dec_steps h" "length targ = length inp"
    using get_dec_inp_targ_seqs_nonneg [OF assms(1)] by blast
  obtain inp' targ' where 2:
    "get_dec_inp_targ_seqs (abstract2ids vocab b (snd (article2ids vocab aw))) (max_dec_steps h)
        (word2id vocab (SOS vocab)) (word2id vocab (EOS vocab)) = Inr (inp', targ')"
    "int (length inp') \<le> max_dec_steps h" "length targ' = length inp'"
    using get_dec_inp_targ_seqs_nonneg [OF assms(1)] by blast
  show ?thesis
  proof (cases "pointer_gen h")
    case True
    then have "length (fst (article2ids vocab aw)) = length aw" using assms(2) by simp
    then show ?thesis
      using True 1 2 by (simp add: Example_init_def Example_ok_def Let_def aw_def [symmetric])
  next
    case False
    then show ?thesis
      using 1 by (simp add: Example_init_def Example_ok_def Let_def aw_def [symmetric])
  qed
qed

lemma init_encoder_seq_ok:
  assumes ne: "exs \<noteq> []" and le: "int (length exs) \<le> batch_size h"
      and ok: "\<forall>ex \<in> set exs. Example_ok h ex"
  defines "M \<equiv> Max (set (map enc_len exs))"
  shows "\<exists>b. init_encoder_seq self exs h
                = Inr (map (\<lambda>ex. padded_encoder ex (int M) (pad_id self)) exs, b)
           \<and> pad_id b = pad_id self
           \<and> enc_batch b = map (\<lambda>ex. pad_loop (enc_input ex) (int M) (pad_id self)) exs
                            @ replicate (nat (batch_size h) - length exs) (replicate M 0)
           \<and> enc_lens b = map enc_len exs @ replicate (nat (batch_size h) - length exs) 0
           \<and> (pointer_gen h \<longrightarrow>
                 (\<exists>ev. enc_batch_extend_vocab b = Some ev \<and> length ev = nat (batch_size h)
                      \<and> (\<forall>r \<in> set ev. length r = M)))"
proof -
  let ?p = "pad_id self"
  let ?g = "\<lambda>ex. padded_encoder ex (int M) ?p"
  let ?exs1 = "map ?g exs"
  have bs: "0 \<le> batch_size h" "length exs \<le> nat (batch_size h)" using le by linarith+
  have mx: "py_max (map enc_len exs) = Inr M"
    using ne by (simp add: py_max_Max M_def)
  have leM: "enc_len ex \<le> M" if "ex \<in> set exs" for ex
    using that by (simp add: M_def)
  have pad: "for_each (\<lambda>ex. pad_encoder_input ex (int M) ?p) exs = Inr ?exs1"
  proof (rule for_each_total)
    fix ex assume "ex \<in> set exs"
    then have "Example_ok h ex" using ok by simp
    then have "pointer_gen (ex_hps ex) \<longrightarrow> enc_input_extend_vocab ex \<noteq> None"
      by (auto simp: Example_ok_def split: option.splits)
    then show "pad_encoder_input ex (int M) ?p = Inr (?g ex)"
      by (rule pad_encoder_input_ok)
  qed
  have z2: "np_zeros2 (batch_size h) (int M) = Inr (replicate (nat (batch_size h)) (replicate M (0::int)))"
    using bs by (simp add: np_zeros2_def)
  have z1: "np_zeros1 (batch_size h) = Inr (replicate (nat (batch_size h)) (0::nat))"
    using bs by (simp add: np_zeros1_def)
  have lenc: "\<forall>ex \<in> set ?exs1. length (enc_input ex) = M"
  proof
    fix ex assume "ex \<in> set ?exs1"
    then obtain ex0 where ex0: "ex0 \<in> set exs" "ex = ?g ex0" by auto
    then have "length (enc_input ex0) = enc_len ex0" using ok by (simp add: Example_ok_def)
    then show "length (enc_input ex) = M"
      using leM [OF ex0(1)] ex0(2) by (simp add: padded_encoder_def length_pad_loop)
  qed
  have fe: "fill_encoder ?exs1 0 (replicate (nat (batch_size h)) (replicate M 0))
               (replicate (nat (batch_size h)) 0)
             = Inr (map enc_input ?exs1 @ replicate (nat (batch_size h) - length exs) (replicate M 0),
                    map enc_len ?exs1 @ replicate (nat (batch_size h) - length exs) 0)"
    using fill_encoder_ok [of 0 ?exs1 "replicate (nat (batch_size h)) (replicate M 0)"
             "replicate (nat (batch_size h)) 0" M] bs lenc
    by simp
  have m1: "map enc_input ?exs1 = map (\<lambda>ex. pad_loop (enc_input ex) (int M) ?p) exs"
    by (simp add: padded_encoder_def)
  have m2: "map enc_len ?exs1 = map enc_len exs"
    by (simp add: padded_encoder_def)
  show ?thesis
  proof (cases "pointer_gen h")
    case False
    then show ?thesis
      by (simp only: init_encoder_seq_def mx pad z2 z1 fe m1 m2 sum.case prod.case Let_def)
         simp
  next
    case True
    let ?len = "\<lambda>ex. length (the (article_oovs ex))"
    let ?ev = "\<lambda>ex. the (enc_input_extend_vocab ex)"
    have okg: "article_oovs ex \<noteq> None \<and> enc_input_extend_vocab ex = Some (?ev ex)
                \<and> length (?ev ex) = M" if "ex \<in> set ?exs1" for ex
    proof -
      from that obtain ex0 where ex0: "ex0 \<in> set exs" "ex = ?g ex0" by auto
      then have o: "Example_ok h ex0" using ok by simp
      then obtain v where v: "enc_input_extend_vocab ex0 = Some v" "length v = enc_len ex0"
        "article_oovs ex0 \<noteq> None" "ex_hps ex0 = h"
        using True by (auto simp: Example_ok_def split: option.splits)
      then show ?thesis
        using leM [OF ex0(1)] ex0(2) True
        by (simp add: padded_encoder_def length_pad_loop)
    qed
    have l1: "for_each len_article_oovs ?exs1 = Inr (map ?len ?exs1)"
    proof (rule for_each_total)
      fix ex assume "ex \<in> set ?exs1"
      from okg [OF this] show "len_article_oovs ex = Inr (?len ex)"
        by (auto simp: len_article_oovs_def)
    qed
    have l2: "for_each get_article_oovs ?exs1 = Inr (map (\<lambda>ex. the (article_oovs ex)) ?exs1)"
    proof (rule for_each_total)
      fix ex assume "ex \<in> set ?exs1"
      from okg [OF this] show "get_article_oovs ex = Inr (the (article_oovs ex))"
        by (auto simp: get_article_oovs_def)
    qed
    have l3: "py_max (map ?len ?exs1) = Inr (Max (set (map ?len ?exs1)))"
      using ne by (intro py_max_Max) simp
    have l4: "fill_extend ?exs1 0 (replicate (nat (batch_size h)) (replicate M 0))
               = Inr (map ?ev ?exs1 @ replicate (nat (batch_size h) - length exs) (replicate M 0))"
      using fill_extend_ok [of 0 ?exs1 "replicate (nat (batch_size h)) (replicate M 0)" M ?ev]
        bs okg by simp
    have l5: "\<forall>r \<in> set (map ?ev ?exs1). length r = M"
      using okg by simp
    have l6: "length (map ?ev ?exs1 @ replicate (nat (batch_size h) - length exs) (replicate M (0::int)))
                = nat (batch_size h)"
      using bs by simp
    have l7: "\<forall>r \<in> set (map ?ev ?exs1 @ replicate (nat (batch_size h) - length exs) (replicate M (0::int))).
                 length r = M"
      using l5 by auto
    show ?thesis
      using True l6 l7
      by (simp only: init_encoder_seq_def mx pad z2 z1 fe m1 m2 l1 l2 l3 l4 sum.case prod.case
            Let_def)
         simp
  qed
qed

lemma init_decoder_seq_ok:
  assumes le: "int (length exs) \<le> batch_size h" and nn: "0 \<le> max_dec_steps h"
      and ok: "\<forall>ex \<in> set exs. int (length (dec_input ex)) \<le> max_dec_steps h
                 \<and> int (length (target ex)) \<le> max_dec_steps h
                 \<and> dec_len ex \<le> nat (max_dec_steps h)"
  shows "\<exists>pm. init_decoder_seq self exs h
             = Inr (map (\<lambda>ex. pad_decoder_inp_targ ex (max_dec_steps h) (pad_id self)) exs,
                    self\<lparr> dec_batch :=
                            map (\<lambda>ex. pad_loop (dec_input ex) (max_dec_steps h) (pad_id self)) exs
                            @ replicate (nat (batch_size h) - length exs)
                                (replicate (nat (max_dec_steps h)) 0),
                          target_batch :=
                            map (\<lambda>ex. pad_loop (target ex) (max_dec_steps h) (pad_id self)) exs
                            @ replicate (nat (batch_size h) - length exs)
                                (replicate (nat (max_dec_steps h)) 0),
                          padding_mask := pm \<rparr>)
           \<and> length pm = nat (batch_size h)
           \<and> (\<forall>r \<in> set pm. length r = nat (max_dec_steps h))"
proof -
  let ?p = "pad_id self"
  let ?n = "nat (max_dec_steps h)"
  let ?g = "\<lambda>ex. pad_decoder_inp_targ ex (max_dec_steps h) ?p"
  let ?exs = "map ?g exs"
  have bs: "0 \<le> batch_size h" "length exs \<le> nat (batch_size h)" using le by linarith+
  have zi: "np_zeros2 (batch_size h) (max_dec_steps h)
              = Inr (replicate (nat (batch_size h)) (replicate ?n (0::int)))"
    using bs nn by (simp add: np_zeros2_def)
  have zr: "np_zeros2 (batch_size h) (max_dec_steps h)
              = Inr (replicate (nat (batch_size h)) (replicate ?n (0::real)))"
    using bs nn by (simp add: np_zeros2_def)
  have lens: "\<forall>ex \<in> set ?exs. length (dec_input ex) = ?n \<and> length (target ex) = ?n
                \<and> dec_len ex \<le> ?n"
  proof
    fix ex assume "ex \<in> set ?exs"
    then obtain ex0 where ex0: "ex0 \<in> set exs" "ex = ?g ex0" by auto
    then have "length (dec_input ex0) \<le> ?n" "length (target ex0) \<le> ?n" "dec_len ex0 \<le> ?n"
      using ok nn by auto
    then show "length (dec_input ex) = ?n \<and> length (target ex) = ?n \<and> dec_len ex \<le> ?n"
      using ex0(2) by (simp add: pad_decoder_inp_targ_def length_pad_loop)
  qed
  obtain pm where fd:
    "fill_decoder ?exs 0 (replicate (nat (batch_size h)) (replicate ?n 0))
        (replicate (nat (batch_size h)) (replicate ?n 0))
        (replicate (nat (batch_size h)) (replicate ?n 0))
      = Inr (map dec_input ?exs @ replicate (nat (batch_size h) - length exs) (replicate ?n 0),
             map target ?exs @ replicate (nat (batch_size h) - length exs) (replicate ?n 0), pm)"
    "length pm = nat (batch_size h)" "\<forall>r \<in> set pm. length r = ?n"
    using fill_decoder_ok [of 0 ?exs "replicate (nat (batch_size h)) (replicate ?n 0)"
             "replicate (nat (batch_size h)) (replicate ?n 0)"
             "replicate (nat (batch_size h)) (replicate ?n 0)" ?n] bs lens
    by auto
  have m1: "map dec_input ?exs = map (\<lambda>ex. pad_loop (dec_input ex) (max_dec_steps h) ?p) exs"
    by (simp add: pad_decoder_inp_targ_def)
  have m2: "map target ?exs = map (\<lambda>ex. pad_loop (target ex) (max_dec_steps h) ?p) exs"
    by (simp add: pad_decoder_inp_targ_def)
  have "init_decoder_seq self exs h
             = Inr (?exs,
                    self\<lparr> dec_batch :=
                            map (\<lambda>ex. pad_loop (dec_input ex) (max_dec_steps h) ?p) exs
                            @ replicate (nat (batch_size h) - length exs) (replicate ?n 0),
                          target_batch :=
                            map (\<lambda>ex. pad_loop (target ex) (max_dec_steps h) ?p) exs
                            @ replicate (nat (batch_size h) - length exs) (replicate ?n 0),
                          padding_mask := pm \<rparr>)"
    by (simp only: init_decoder_seq_def zi zr fd(1) m1 m2 sum.case prod.case Let_def)
  with fd(2,3) show ?thesis by blast
qed

lemma Batch_init_ok:
  fixes exs :: "'w Example list" and vocab :: "('w, 'b, 'r) ext"
  assumes ne: "exs \<noteq> []" and le: "int (length exs) \<le> batch_size h"
      and nn: "0 \<le> max_dec_steps h"
      and ok: "\<forall>ex \<in> set exs. Example_ok h ex"
  defines "M \<equiv> Max (set (map enc_len exs))"
      and "p \<equiv> word2id vocab (PAD vocab)"
  shows "\<exists>b. Batch_init exs h vocab
               = Inr (map (\<lambda>ex. pad_decoder_inp_targ (padded_encoder ex (int M) p)
                                   (max_dec_steps h) p) exs, b)
           \<and> enc_batch b = map (\<lambda>ex. pad_loop (enc_input ex) (int M) p) exs
                            @ replicate (nat (batch_size h) - length exs) (replicate M 0)
           \<and> enc_lens b = map enc_len exs @ replicate (nat (batch_size h) - length exs) 0
           \<and> (pointer_gen h \<longrightarrow>
                 (\<exists>ev. enc_batch_extend_vocab b = Some ev \<and> length ev = nat (batch_size h)
                      \<and> (\<forall>r \<in> set ev. length r = M)))
           \<and> dec_batch b = map (\<lambda>ex. pad_loop (dec_input ex) (max_dec_steps h) p) exs
                            @ replicate (nat (batch_size h) - length exs)
                                (replicate (nat (max_dec_steps h)) 0)
           \<and> target_batch b = map (\<lambda>ex. pad_loop (target ex) (max_dec_steps h) p) exs
                            @ replicate (nat (batch_size h) - length exs)
                                (replicate (nat (max_dec_steps h)) 0)
           \<and> length (padding_mask b) = nat (batch_size h)
           \<and> (\<forall>r \<in> set (padding_mask b). length r = nat (max_dec_steps h))
           \<and> original_articles b = map original_article exs
           \<and> original_abstracts b = map original_abstract exs"
proof -
  define self :: "'w Batch" where
    "self = \<lparr> pad_id = p, enc_batch = [], enc_lens = [],
              max_art_oovs = None, art_oovs = None, enc_batch_extend_vocab = None,
              dec_batch = [], target_batch = [], padding_mask = [],
              original_articles = [], original_abstracts = [],
              original_abstracts_sents = [] \<rparr>"
  have ps: "pad_id self = p" by (simp add: self_def)
  let ?exs1 = "map (\<lambda>ex. padded_encoder ex (int M) p) exs"
  obtain b1 where b1:
    "init_encoder_seq self exs h = Inr (?exs1, b1)"
    "pad_id b1 = p"
    "enc_batch b1 = map (\<lambda>ex. pad_loop (enc_input ex) (int M) p) exs
                            @ replicate (nat (batch_size h) - length exs) (replicate M 0)"
    "enc_lens b1 = map enc_len exs @ replicate (nat (batch_size h) - length exs) 0"
    "pointer_gen h \<longrightarrow>
                 (\<exists>ev. enc_batch_extend_vocab b1 = Some ev \<and> length ev = nat (batch_size h)
                      \<and> (\<forall>r \<in> set ev. length r = M))"
    using init_encoder_seq_ok [OF ne le ok, of self] unfolding M_def ps by blast
  have ok1: "\<forall>ex \<in> set ?exs1. int (length (dec_input ex)) \<le> max_dec_steps h
                 \<and> int (length (target ex)) \<le> max_dec_steps h
                 \<and> dec_len ex \<le> nat (max_dec_steps h)"
    using ok by (auto simp: Example_ok_def padded_encoder_def)
  have le1: "int (length ?exs1) \<le> batch_size h" using le by simp
  obtain pm where d:
    "init_decoder_seq b1 ?exs1 h
             = Inr (map (\<lambda>ex. pad_decoder_inp_targ ex (max_dec_steps h) (pad_id b1)) ?exs1,
                    b1\<lparr> dec_batch :=
                            map (\<lambda>ex. pad_loop (dec_input ex) (max_dec_steps h) (pad_id b1)) ?exs1
                            @ replicate (nat (batch_size h) - length ?exs1)
                                (replicate (nat (max_dec_steps h)) 0),
                          target_batch :=
                            map (\<lambda>ex. pad_loop (target ex) (max_dec_steps h) (pad_id b1)) ?exs1
                            @ replicate (nat (batch_size h) - length ?exs1)
                                (replicate (nat (max_dec_steps h)) 0),
                          padding_mask := pm \<rparr>)"
    "length pm = nat (batch_size h)" "\<forall>r \<in> set pm. length r = nat (max_dec_steps h)"
    using init_decoder_seq_ok [OF le1 nn ok1, of b1] by blast
  have B: "Batch_init exs h vocab =
          (case init_encoder_seq self exs h of
             Inl e \<Rightarrow> Inl e
           | Inr (exs1, self1) \<Rightarrow>
               (case init_decoder_seq self1 exs1 h of
                  Inl e \<Rightarrow> Inl e
                | Inr (exs2, self2) \<Rightarrow> Inr (exs2, store_orig_strings self2 exs2)))"
    by (simp add: Batch_init_def self_def p_def)
  obtain exs2 b where eq: "Batch_init exs h vocab = Inr (exs2, b)"
    and exs2: "exs2 = map (\<lambda>ex. pad_decoder_inp_targ ex (max_dec_steps h) (pad_id b1)) ?exs1"
    and b: "b = store_orig_strings (b1\<lparr> dec_batch :=
                            map (\<lambda>ex. pad_loop (dec_input ex) (max_dec_steps h) (pad_id b1)) ?exs1
                            @ replicate (nat (batch_size h) - length ?exs1)
                                (replicate (nat (max_dec_steps h)) 0),
                          target_batch :=
                            map (\<lambda>ex. pad_loop (target ex) (max_dec_steps h) (pad_id b1)) ?exs1
                            @ replicate (nat (batch_size h) - length ?exs1)
                                (replicate (nat (max_dec_steps h)) 0),
                          padding_mask := pm \<rparr>) exs2"
    by (simp only: B b1(1) d(1) sum.case prod.case)
  have e2: "exs2 = map (\<lambda>ex. pad_decoder_inp_targ (padded_encoder ex (int M) p)
                                   (max_dec_steps h) p) exs"
    by (simp add: exs2 b1(2))
  show ?thesis
    using b1(2-) d(2-)
    by (simp add: eq e2 [symmetric]) (simp add: b e2 store_orig_strings_def padded_encoder_def
          pad_decoder_inp_targ_def comp_def)
qed

lemma length_article2ids_loop:
  "length (fst (article2ids_loop w2i unk vsize ws ids oovs)) = length ids + length ws"
  by (induction ws arbitrary: ids oovs) (simp_all add: Let_def)

lemma length_article2ids_model:
  "length (fst (article2ids_model w2i unk vsize ws)) = length ws"
  by (simp add: article2ids_model_def length_article2ids_loop)


lemma examples_of_pairs:
  fixes vocab :: "('w, 'b, 'r) ext"
  assumes nn: "0 \<le> max_dec_steps h"
      and a2i: "pointer_gen h \<longrightarrow> (\<forall>ws. length (fst (article2ids vocab ws)) = length ws)"
  shows "\<exists>exs. for_each (\<lambda>(a, b). Example_init vocab h a b) pairs = Inr exs
           \<and> length exs = length pairs
           \<and> (\<forall>ex \<in> set exs. Example_ok h ex)
           \<and> (\<forall>i < length pairs.
                 enc_input (exs ! i) = map (word2id vocab)
                   (if int (length (fst (pairs ! i))) > max_enc_steps h
                    then py_prefix (max_enc_steps h) (fst (pairs ! i)) else fst (pairs ! i)))"
proof -
  define g where "g = (\<lambda>ab. case Example_init vocab h (fst ab) (snd ab) of Inr ex \<Rightarrow> ex)"
  have g: "Example_init vocab h a b = Inr (g (a, b)) \<and> Example_ok h (g (a, b))
            \<and> enc_input (g (a, b)) = map (word2id vocab)
                (if int (length a) > max_enc_steps h then py_prefix (max_enc_steps h) a else a)"
    for a b
    using Example_init_ok [OF nn a2i, of a b] by (auto simp: g_def)
  have "for_each (\<lambda>(a, b). Example_init vocab h a b) pairs = Inr (map g pairs)"
    by (rule for_each_total) (use g in auto)
  moreover have "\<forall>ex \<in> set (map g pairs). Example_ok h ex"
    using g by auto
  moreover have "\<forall>i < length pairs.
                 enc_input (map g pairs ! i) = map (word2id vocab)
                   (if int (length (fst (pairs ! i))) > max_enc_steps h
                    then py_prefix (max_enc_steps h) (fst (pairs ! i)) else fst (pairs ! i))"
  proof (intro allI impI)
    fix i assume "i < length pairs"
    then show "enc_input (map g pairs ! i) = map (word2id vocab)
                   (if int (length (fst (pairs ! i))) > max_enc_steps h
                    then py_prefix (max_enc_steps h) (fst (pairs ! i)) else fst (pairs ! i))"
      using g [of "fst (pairs ! i)" "snd (pairs ! i)"] by simp
  qed
  ultimately show ?thesis by (intro exI [of _ "map g pairs"]) simp
qed

lemma int_max_nat: "int n \<le> m \<Longrightarrow> int (max n (nat m)) = m"
  by linarith

lemma le_nat_of_int_le: "int n \<le> m \<Longrightarrow> n \<le> nat m"
  by linarith

lemma padded_example_lengths:
  fixes p :: int
  assumes ok: "Example_ok h ex" and le: "enc_len ex \<le> M" and nn: "0 \<le> max_dec_steps h"
  defines "ex' \<equiv> pad_decoder_inp_targ (padded_encoder ex (int M) p) (max_dec_steps h) p"
  shows "length (enc_input ex') = M"
    and "pointer_gen h \<longrightarrow> (\<exists>v. enc_input_extend_vocab ex' = Some v \<and> length v = M)"
    and "int (length (dec_input ex')) = max_dec_steps h"
    and "int (length (target ex')) = max_dec_steps h"
    and "enc_len ex' = enc_len ex"
proof -
  show "length (enc_input ex') = M"
    using ok le by (simp add: ex'_def pad_decoder_inp_targ_def padded_encoder_def
        length_pad_loop Example_ok_def)
  show "pointer_gen h \<longrightarrow> (\<exists>v. enc_input_extend_vocab ex' = Some v \<and> length v = M)"
    using ok le by (auto simp: ex'_def pad_decoder_inp_targ_def padded_encoder_def
        length_pad_loop Example_ok_def split: option.splits)
  have d: "int (length (dec_input ex)) \<le> max_dec_steps h"
    "int (length (target ex)) \<le> max_dec_steps h"
    using ok by (simp_all add: Example_ok_def)
  show "int (length (dec_input ex')) = max_dec_steps h"
    using d(1) by (simp add: ex'_def pad_decoder_inp_targ_def padded_encoder_def
        length_pad_loop int_max_nat)
  show "int (length (target ex')) = max_dec_steps h"
    using d(2) by (simp add: ex'_def pad_decoder_inp_targ_def padded_encoder_def
        length_pad_loop int_max_nat)
  show "enc_len ex' = enc_len ex"
    by (simp add: ex'_def pad_decoder_inp_targ_def padded_encoder_def)
qed

lemma for_each_length: "for_each f xs = Inr ys \<Longrightarrow> length ys = length xs"
  by (induction xs arbitrary: ys) (auto split: sum.splits)

lemma set_row_Inr: "set_row a i row = Inr a' \<Longrightarrow> i < length a \<and> length a' = length a"
  by (auto simp: set_row_def Let_def split: if_splits)

lemma fill_encoder_Inr:
  "fill_encoder exs i eb el = Inr r \<Longrightarrow> i \<le> length eb \<Longrightarrow> i + length exs \<le> length eb"
proof (induction exs arbitrary: i eb el)
  case Nil
  then show ?case by simp
next
  case (Cons ex exs)
  from Cons.prems obtain eb' el' where s: "set_row eb i (enc_input ex) = Inr eb'"
    "fill_encoder exs (Suc i) eb' el' = Inr r"
    by (auto split: sum.splits)
  from set_row_Inr [OF s(1)] have "Suc i \<le> length eb'" "length eb' = length eb" by simp_all
  with Cons.IH [OF s(2)] show ?case by simp
qed

lemma np_zeros2_Inr: "np_zeros2 r c = Inr z \<Longrightarrow> 0 \<le> r \<and> 0 \<le> c \<and> length z = nat r"
  by (auto simp: np_zeros2_def split: if_splits)

lemma init_encoder_seq_Inr:
  assumes "init_encoder_seq self exs h = Inr (exs1, b1)"
  shows "exs \<noteq> [] \<and> int (length exs) \<le> batch_size h \<and> length exs1 = length exs"
proof -
  from assms obtain M where m: "py_max (map enc_len exs) = Inr M"
    by (auto simp: init_encoder_seq_def split: sum.splits)
  then have ne: "exs \<noteq> []" by (auto simp: py_max_def)
  from assms m obtain p where p:
    "for_each (\<lambda>ex. pad_encoder_input ex (int M) (pad_id self)) exs = Inr p"
    by (auto simp: init_encoder_seq_def split: sum.splits)
  from assms m p obtain eb0 where z: "np_zeros2 (batch_size h) (int M) = Inr (eb0 :: int list list)"
    by (auto simp: init_encoder_seq_def split: sum.splits)
  from assms m p z obtain el0 where z1: "np_zeros1 (batch_size h) = Inr (el0 :: nat list)"
    by (auto simp: init_encoder_seq_def split: sum.splits)
  from assms m p z z1 obtain r where f: "fill_encoder p 0 eb0 el0 = Inr r"
    by (auto simp: init_encoder_seq_def split: sum.splits)
  have "exs1 = p"
    using assms m p z z1 f
    by (auto simp: init_encoder_seq_def Let_def split: sum.splits prod.splits if_splits)
  moreover have "length p = length exs" using p by (rule for_each_length)
  moreover have "length p \<le> length eb0" using fill_encoder_Inr [OF f] by simp
  moreover have "0 \<le> batch_size h \<and> length eb0 = nat (batch_size h)"
    using np_zeros2_Inr [OF z] by simp
  ultimately show ?thesis using ne by auto
qed

lemma init_decoder_seq_Inr:
  "init_decoder_seq self exs h = Inr r \<Longrightarrow> 0 \<le> max_dec_steps h"
  by (auto simp: init_decoder_seq_def Let_def np_zeros2_def split: sum.splits if_splits)

lemma Batch_init_Inr:
  assumes "Batch_init exs h vocab = Inr (exs', b)"
  shows "exs \<noteq> [] \<and> int (length exs) \<le> batch_size h \<and> 0 \<le> max_dec_steps h"
proof -
  from assms obtain self exs1 b1 r where e: "init_encoder_seq self exs h = Inr (exs1, b1)"
    and d: "init_decoder_seq b1 exs1 h = Inr r"
    by (auto simp: Batch_init_def Let_def split: sum.splits)
  show ?thesis using init_encoder_seq_Inr [OF e] init_decoder_seq_Inr [OF d] by simp
qed

text \<open>
  C2.  Let \<open>exs\<close> be a list of examples built by the constructor of \<open>Example\<close> for the
  hyperparameters of the batch (\<open>article2ids\<close> returns one id for each token).  Whenever
  the construction of the batch from \<open>exs\<close> returns, the encoder input of every example
  (and its extended-vocabulary encoder input in pointer-generator mode) is as long as the
  longest encoder length \<open>enc_len\<close> of the list, every decoder input and target has
  \<open>max_dec_steps\<close> entries, and the arrays of the batch have \<open>batch_size\<close> rows of these
  widths.  The construction returns for every non-empty list of at most \<open>batch_size\<close>
  examples when \<open>max_dec_steps \<ge> 0\<close>.
\<close>

theorem Batch_init_pads_to_rectangle:
  fixes vocab :: "('w, 'b, 'r) ext" and pairs :: "('w list \<times> 'w list) list"
  assumes a2i: "pointer_gen h \<longrightarrow> (\<forall>ws. length (fst (article2ids vocab ws)) = length ws)"
      and exs: "for_each (\<lambda>(a, y). Example_init vocab h a y) pairs = Inr exs"
  shows "(exs \<noteq> [] \<and> int (length exs) \<le> batch_size h \<and> 0 \<le> max_dec_steps h
            \<longrightarrow> (\<exists>exs' b. Batch_init exs h vocab = Inr (exs', b)))
       \<and> (\<forall>exs' b. Batch_init exs h vocab = Inr (exs', b) \<longrightarrow>
             length exs' = length exs
           \<and> (\<forall>ex \<in> set exs. enc_len ex = length (enc_input ex))
           \<and> (\<forall>ex' \<in> set exs'.
                  length (enc_input ex') = Max (set (map enc_len exs))
                \<and> (pointer_gen h \<longrightarrow>
                     (\<exists>v. enc_input_extend_vocab ex' = Some v
                         \<and> length v = Max (set (map enc_len exs))))
                \<and> int (length (dec_input ex')) = max_dec_steps h
                \<and> int (length (target ex')) = max_dec_steps h)
           \<and> length (enc_batch b) = nat (batch_size h)
           \<and> (\<forall>r \<in> set (enc_batch b). length r = Max (set (map enc_len exs)))
           \<and> (pointer_gen h \<longrightarrow>
                 (\<exists>ev. enc_batch_extend_vocab b = Some ev \<and> length ev = nat (batch_size h)
                      \<and> (\<forall>r \<in> set ev. length r = Max (set (map enc_len exs)))))
           \<and> length (dec_batch b) = nat (batch_size h)
           \<and> (\<forall>r \<in> set (dec_batch b). int (length r) = max_dec_steps h)
           \<and> length (target_batch b) = nat (batch_size h)
           \<and> (\<forall>r \<in> set (target_batch b). int (length r) = max_dec_steps h))"
proof -
  define M where "M = Max (set (map enc_len exs))"
  define p where "p = word2id vocab (PAD vocab)"
  define padded where
    "padded = map (\<lambda>ex. pad_decoder_inp_targ (padded_encoder ex (int M) p) (max_dec_steps h) p) exs"
  have main: "\<exists>b. Batch_init exs h vocab = Inr (padded, b)
           \<and> (\<forall>ex \<in> set exs. enc_len ex = length (enc_input ex))
           \<and> (\<forall>ex' \<in> set padded.
                  length (enc_input ex') = M
                \<and> (pointer_gen h \<longrightarrow> (\<exists>v. enc_input_extend_vocab ex' = Some v \<and> length v = M))
                \<and> int (length (dec_input ex')) = max_dec_steps h
                \<and> int (length (target ex')) = max_dec_steps h)
           \<and> length (enc_batch b) = nat (batch_size h)
           \<and> (\<forall>r \<in> set (enc_batch b). length r = M)
           \<and> (pointer_gen h \<longrightarrow>
                 (\<exists>ev. enc_batch_extend_vocab b = Some ev \<and> length ev = nat (batch_size h)
                      \<and> (\<forall>r \<in> set ev. length r = M)))
           \<and> length (dec_batch b) = nat (batch_size h)
           \<and> (\<forall>r \<in> set (dec_batch b). int (length r) = max_dec_steps h)
           \<and> length (target_batch b) = nat (batch_size h)
           \<and> (\<forall>r \<in> set (target_batch b). int (length r) = max_dec_steps h)"
    if ne: "exs \<noteq> []" and le: "int (length exs) \<le> batch_size h" and nn: "0 \<le> max_dec_steps h"
  proof -
    have ok: "\<forall>ex \<in> set exs. Example_ok h ex"
      using examples_of_pairs [OF nn a2i, of pairs] exs by auto
    have bs: "length exs \<le> nat (batch_size h)" using le by linarith
    obtain b where b:
      "Batch_init exs h vocab = Inr (padded, b)"
      "enc_batch b = map (\<lambda>ex. pad_loop (enc_input ex) (int M) p) exs
                       @ replicate (nat (batch_size h) - length exs) (replicate M 0)"
      "pointer_gen h \<longrightarrow>
         (\<exists>ev. enc_batch_extend_vocab b = Some ev \<and> length ev = nat (batch_size h)
              \<and> (\<forall>r \<in> set ev. length r = M))"
      "dec_batch b = map (\<lambda>ex. pad_loop (dec_input ex) (max_dec_steps h) p) exs
                       @ replicate (nat (batch_size h) - length exs)
                           (replicate (nat (max_dec_steps h)) 0)"
      "target_batch b = map (\<lambda>ex. pad_loop (target ex) (max_dec_steps h) p) exs
                       @ replicate (nat (batch_size h) - length exs)
                           (replicate (nat (max_dec_steps h)) 0)"
      using Batch_init_ok [OF ne le nn ok, of vocab] unfolding M_def p_def padded_def
      by blast
    have leM: "enc_len ex \<le> M" if "ex \<in> set exs" for ex
      using that by (simp add: M_def)
    have okx: "Example_ok h ex" if "ex \<in> set exs" for ex
      using that ok by simp
    have c1: "\<forall>ex \<in> set exs. enc_len ex = length (enc_input ex)"
      using ok by (simp add: Example_ok_def)
    have c2: "\<forall>ex' \<in> set padded.
                  length (enc_input ex') = M
                \<and> (pointer_gen h \<longrightarrow> (\<exists>v. enc_input_extend_vocab ex' = Some v \<and> length v = M))
                \<and> int (length (dec_input ex')) = max_dec_steps h
                \<and> int (length (target ex')) = max_dec_steps h"
    proof
      fix ex' assume "ex' \<in> set padded"
      then obtain ex where ex: "ex \<in> set exs"
        "ex' = pad_decoder_inp_targ (padded_encoder ex (int M) p) (max_dec_steps h) p"
        by (auto simp: padded_def)
      show "length (enc_input ex') = M
                \<and> (pointer_gen h \<longrightarrow> (\<exists>v. enc_input_extend_vocab ex' = Some v \<and> length v = M))
                \<and> int (length (dec_input ex')) = max_dec_steps h
                \<and> int (length (target ex')) = max_dec_steps h"
        unfolding ex(2)
        using padded_example_lengths [OF okx [OF ex(1)] leM [OF ex(1)] nn, of p] by blast
    qed
    have c3: "length (enc_batch b) = nat (batch_size h)"
      using bs by (simp add: b(2))
    have c4: "\<forall>r \<in> set (enc_batch b). length r = M"
      using c1 leM by (auto simp: b(2) length_pad_loop)
    have c5: "length (dec_batch b) = nat (batch_size h)"
      using bs by (simp add: b(4))
    have dl: "length (dec_input ex) \<le> nat (max_dec_steps h)
              \<and> length (target ex) \<le> nat (max_dec_steps h)" if "ex \<in> set exs" for ex
      using okx [OF that] by (simp add: Example_ok_def le_nat_of_int_le)
    have c6: "\<forall>r \<in> set (dec_batch b). int (length r) = max_dec_steps h"
      using dl nn by (auto simp: b(4) length_pad_loop)
    have c7: "length (target_batch b) = nat (batch_size h)"
      using bs by (simp add: b(5))
    have c8: "\<forall>r \<in> set (target_batch b). int (length r) = max_dec_steps h"
      using dl nn by (auto simp: b(5) length_pad_loop)
    show ?thesis
      using b(1) c1 c2 c3 c4 b(3) c5 c6 c7 c8 by (intro exI [of _ b] conjI)
  qed
  have total: "exs \<noteq> [] \<and> int (length exs) \<le> batch_size h \<and> 0 \<le> max_dec_steps h
            \<longrightarrow> (\<exists>exs' b. Batch_init exs h vocab = Inr (exs', b))"
    using main by blast
  have partial: "length exs' = length exs
           \<and> (\<forall>ex \<in> set exs. enc_len ex = length (enc_input ex))
           \<and> (\<forall>ex' \<in> set exs'.
                  length (enc_input ex') = M
                \<and> (pointer_gen h \<longrightarrow> (\<exists>v. enc_input_extend_vocab ex' = Some v \<and> length v = M))
                \<and> int (length (dec_input ex')) = max_dec_steps h
                \<and> int (length (target ex')) = max_dec_steps h)
           \<and> length (enc_batch b) = nat (batch_size h)
           \<and> (\<forall>r \<in> set (enc_batch b). length r = M)
           \<and> (pointer_gen h \<longrightarrow>
                 (\<exists>ev. enc_batch_extend_vocab b = Some ev \<and> length ev = nat (batch_size h)
                      \<and> (\<forall>r \<in> set ev. length r = M)))
           \<and> length (dec_batch b) = nat (batch_size h)
           \<and> (\<forall>r \<in> set (dec_batch b). int (length r) = max_dec_steps h)
           \<and> length (target_batch b) = nat (batch_size h)
           \<and> (\<forall>r \<in> set (target_batch b). int (length r) = max_dec_steps h)"
    if r: "Batch_init exs h vocab = Inr (exs', b)" for exs' b
  proof -
    from Batch_init_Inr [OF r] have pre: "exs \<noteq> []" "int (length exs) \<le> batch_size h"
      "0 \<le> max_dec_steps h" by simp_all
    from main [OF pre] obtain b0 where b0: "Batch_init exs h vocab = Inr (padded, b0)"
      by (elim exE conjE)
    then have eq: "exs' = padded" "b = b0" using r by simp_all
    have "length padded = length exs" by (simp add: padded_def)
    then show ?thesis
      using main [OF pre] b0 unfolding eq by auto
  qed
  show ?thesis
    using total partial unfolding M_def by blast
qed

theorem Batch_init_pads_to_rectangle_witness:
  "(\<forall>ws. length (fst (article2ids demo_vocab ws)) = length ws)
   \<and> (\<exists>exs exs' b.
         for_each (\<lambda>(a, y). Example_init demo_vocab demo_hps a y)
           [(''abxyx'', ''ay''), (''b'', ''abab'')] = Inr exs
       \<and> exs \<noteq> [] \<and> int (length exs) \<le> batch_size demo_hps \<and> 0 \<le> max_dec_steps demo_hps
       \<and> Batch_init exs demo_hps demo_vocab = Inr (exs', b)
       \<and> length exs' = length exs
       \<and> length (enc_batch b) = nat (batch_size demo_hps)
       \<and> (\<forall>r \<in> set (enc_batch b). length r = Max (set (map enc_len exs)))
       \<and> (\<forall>r \<in> set (dec_batch b). int (length r) = max_dec_steps demo_hps)
       \<and> (\<forall>r \<in> set (target_batch b). int (length r) = max_dec_steps demo_hps))"
proof -
  have h3: "0 \<le> max_dec_steps demo_hps" by (simp add: demo_hps_def)
  have h4: "\<forall>ws. length (fst (article2ids demo_vocab ws)) = length ws"
    by (simp add: demo_vocab_def length_article2ids_model)
  then have h4': "pointer_gen demo_hps \<longrightarrow>
                    (\<forall>ws. length (fst (article2ids demo_vocab ws)) = length ws)" by simp
  obtain exs where exs:
    "for_each (\<lambda>(a, y). Example_init demo_vocab demo_hps a y)
       [(''abxyx'', ''ay''), (''b'', ''abab'')] = Inr exs"
    "length exs = length [(''abxyx'', ''ay''), (''b'', ''abab'')]"
    using examples_of_pairs [OF h3 h4', of "[(''abxyx'', ''ay''), (''b'', ''abab'')]"] by blast
  have pre: "exs \<noteq> []" "int (length exs) \<le> batch_size demo_hps"
    using exs(2) by (auto simp: demo_hps_def)
  note t = Batch_init_pads_to_rectangle [OF h4' exs(1)]
  from t [THEN conjunct1] pre h3
  obtain exs' b where run: "Batch_init exs demo_hps demo_vocab = Inr (exs', b)"
    by blast
  from t [THEN conjunct2] run have
    "length exs' = length exs
       \<and> length (enc_batch b) = nat (batch_size demo_hps)
       \<and> (\<forall>r \<in> set (enc_batch b). length r = Max (set (map enc_len exs)))
       \<and> (\<forall>r \<in> set (dec_batch b). int (length r) = max_dec_steps demo_hps)
       \<and> (\<forall>r \<in> set (target_batch b). int (length r) = max_dec_steps demo_hps)"
    by blast
  then show ?thesis using h4 exs(1) pre h3 run by blast
qed

lemma Example_init_enc:
  "Example_init vocab h a y = Inr ex \<Longrightarrow>
     enc_input ex = map (word2id vocab)
       (if int (length a) > max_enc_steps h then py_prefix (max_enc_steps h) a else a)
   \<and> enc_len ex = length (enc_input ex)"
  by (auto simp: Example_init_def Let_def split: sum.splits prod.splits if_splits)

text \<open>
  C7.  With \<open>max_enc_steps \<ge> 0\<close>, an example that the constructor returns holds the ids
  of the first \<open>max_enc_steps\<close> tokens of the article, and its \<open>enc_len\<close> is the number
  of tokens kept.  A batch built from a list of such examples records the \<open>enc_len\<close> of
  the \<open>i\<close>-th example at position \<open>i\<close> of \<open>enc_lens\<close>, and padding leaves \<open>enc_len\<close> as it
  is.  Examples and batch are built without an error for every non-empty list of at most
  \<open>batch_size\<close> line pairs when \<open>max_dec_steps \<ge> 0\<close>.
\<close>

theorem enc_len_recorded:
  fixes vocab :: "('w, 'b, 'r) ext" and pairs :: "('w list \<times> 'w list) list"
  assumes me: "0 \<le> max_enc_steps h"
      and a2i: "pointer_gen h \<longrightarrow> (\<forall>ws. length (fst (article2ids vocab ws)) = length ws)"
  shows "(Example_init vocab h a y = Inr ex \<longrightarrow>
             enc_input ex = map (word2id vocab) (take (nat (max_enc_steps h)) a)
           \<and> enc_len ex = min (length a) (nat (max_enc_steps h))
           \<and> int (enc_len ex) \<le> max_enc_steps h)
       \<and> (for_each (\<lambda>(a, y). Example_init vocab h a y) pairs = Inr exs
            \<and> Batch_init exs h vocab = Inr (exs', b) \<longrightarrow>
             length exs' = length exs
           \<and> (\<forall>i < length exs. enc_len (exs' ! i) = enc_len (exs ! i)
                               \<and> enc_lens b ! i = enc_len (exs ! i)))
       \<and> (0 \<le> max_dec_steps h \<and> pairs \<noteq> [] \<and> int (length pairs) \<le> batch_size h \<longrightarrow>
             (\<exists>exs exs' b. for_each (\<lambda>(a, y). Example_init vocab h a y) pairs = Inr exs
                          \<and> Batch_init exs h vocab = Inr (exs', b)))"
proof (intro conjI impI)
  have trunc: "(if int (length a) > max_enc_steps h then py_prefix (max_enc_steps h) a else a)
                 = take (nat (max_enc_steps h)) a" for a :: "'w list"
    using me by (simp add: py_prefix_nonneg)
  assume "Example_init vocab h a y = Inr ex"
  from Example_init_enc [OF this]
  have e: "enc_input ex = map (word2id vocab) (take (nat (max_enc_steps h)) a)"
    and l: "enc_len ex = length (enc_input ex)"
    by (simp_all only: trunc)
  show "enc_input ex = map (word2id vocab) (take (nat (max_enc_steps h)) a)" by (rule e)
  show l2: "enc_len ex = min (length a) (nat (max_enc_steps h))" by (simp add: l e)
  show "int (enc_len ex) \<le> max_enc_steps h" using me unfolding l2 by linarith
next
  assume a: "for_each (\<lambda>(a, y). Example_init vocab h a y) pairs = Inr exs
            \<and> Batch_init exs h vocab = Inr (exs', b)"
  then have run: "Batch_init exs h vocab = Inr (exs', b)" by simp
  from Batch_init_Inr [OF run] have pre: "exs \<noteq> []" "int (length exs) \<le> batch_size h"
    "0 \<le> max_dec_steps h" by simp_all
  have ok: "\<forall>ex \<in> set exs. Example_ok h ex"
    using examples_of_pairs [OF pre(3) a2i, of pairs] a by auto
  obtain b0 where b0:
    "Batch_init exs h vocab
       = Inr (map (\<lambda>ex. pad_decoder_inp_targ
                          (padded_encoder ex (int (Max (set (map enc_len exs))))
                             (word2id vocab (PAD vocab)))
                          (max_dec_steps h) (word2id vocab (PAD vocab))) exs, b0)"
    "enc_lens b0 = map enc_len exs @ replicate (nat (batch_size h) - length exs) 0"
    using Batch_init_ok [OF pre(1,2,3) ok, of vocab] by blast
  have eq: "exs' = map (\<lambda>ex. pad_decoder_inp_targ
                          (padded_encoder ex (int (Max (set (map enc_len exs))))
                             (word2id vocab (PAD vocab)))
                          (max_dec_steps h) (word2id vocab (PAD vocab))) exs" "b = b0"
    using run b0(1) by simp_all
  show "length exs' = length exs"
    unfolding eq by simp
  show "\<forall>i < length exs. enc_len (exs' ! i) = enc_len (exs ! i)
                               \<and> enc_lens b ! i = enc_len (exs ! i)"
    unfolding eq
    by (simp add: b0(2) nth_append pad_decoder_inp_targ_def padded_encoder_def)
next
  assume a: "0 \<le> max_dec_steps h \<and> pairs \<noteq> [] \<and> int (length pairs) \<le> batch_size h"
  then have nn: "0 \<le> max_dec_steps h" by simp
  obtain exs where exs:
    "for_each (\<lambda>(a, y). Example_init vocab h a y) pairs = Inr exs"
    "length exs = length pairs" "\<forall>ex \<in> set exs. Example_ok h ex"
    using examples_of_pairs [OF nn a2i, of pairs] by blast
  have ne: "exs \<noteq> []" and le: "int (length exs) \<le> batch_size h"
    using a exs(2) by auto
  from Batch_init_ok [OF ne le nn exs(3), of vocab]
  obtain exs' b where "Batch_init exs h vocab = Inr (exs', b)" by blast
  then show "\<exists>exs exs' b. for_each (\<lambda>(a, y). Example_init vocab h a y) pairs = Inr exs
                          \<and> Batch_init exs h vocab = Inr (exs', b)"
    using exs(1) by blast
qed

theorem enc_len_recorded_witness:
  "0 \<le> max_enc_steps demo_hps
   \<and> (\<forall>ws. length (fst (article2ids demo_vocab ws)) = length ws)
   \<and> (\<exists>ex. Example_init demo_vocab demo_hps ''abxyx'' ''ay'' = Inr ex
           \<and> enc_input ex = [4, 5, 1] \<and> enc_len ex = 3)
   \<and> (\<exists>exs exs' b.
         for_each (\<lambda>(a, y). Example_init demo_vocab demo_hps a y)
           [(''abxyx'', ''ay''), (''b'', ''abab'')] = Inr exs
       \<and> Batch_init exs demo_hps demo_vocab = Inr (exs', b)
       \<and> length exs = 2
       \<and> enc_lens b ! 0 = enc_len (exs ! 0)
       \<and> enc_lens b ! 1 = enc_len (exs ! 1))"
proof -
  have h0: "0 \<le> max_enc_steps demo_hps" by (simp add: demo_hps_def)
  have h3: "0 \<le> max_dec_steps demo_hps" by (simp add: demo_hps_def)
  have h4: "\<forall>ws. length (fst (article2ids demo_vocab ws)) = length ws"
    by (simp add: demo_vocab_def length_article2ids_model)
  then have h4': "pointer_gen demo_hps \<longrightarrow>
                    (\<forall>ws. length (fst (article2ids demo_vocab ws)) = length ws)" by simp
  obtain ex where ex: "Example_init demo_vocab demo_hps ''abxyx'' ''ay'' = Inr ex"
    using Example_init_ok [OF h3 h4', of "''abxyx''" "''ay''"] by blast
  have "enc_input ex = map (word2id demo_vocab) (take (nat (max_enc_steps demo_hps)) ''abxyx'')
        \<and> enc_len ex = min (length ''abxyx'') (nat (max_enc_steps demo_hps))"
    using enc_len_recorded [OF h0 h4', where a = "''abxyx''" and y = "''ay''" and ex = ex, THEN conjunct1] ex
    by blast
  then have a: "enc_input ex = [4, 5, 1] \<and> enc_len ex = 3"
    by (simp add: demo_hps_def demo_vocab_def demo_word2id_def numeral_3_eq_3)
  have pre: "0 \<le> max_dec_steps demo_hps \<and> [(''abxyx'', ''ay''), (''b'', ''abab'')] \<noteq> []
               \<and> int (length [(''abxyx'', ''ay''), (''b'', ''abab'')]) \<le> batch_size demo_hps"
    by (simp add: demo_hps_def)
  obtain exs exs' b where run:
    "for_each (\<lambda>(a, y). Example_init demo_vocab demo_hps a y)
           [(''abxyx'', ''ay''), (''b'', ''abab'')] = Inr exs"
    "Batch_init exs demo_hps demo_vocab = Inr (exs', b)"
    using enc_len_recorded [OF h0 h4', where pairs = "[(''abxyx'', ''ay''), (''b'', ''abab'')]",
        THEN conjunct2, THEN conjunct2] pre
    by blast
  have l: "length exs = 2" using for_each_length [OF run(1)] by simp
  have "\<forall>i < length exs. enc_len (exs' ! i) = enc_len (exs ! i)
                               \<and> enc_lens b ! i = enc_len (exs ! i)"
    using enc_len_recorded [OF h0 h4', where pairs = "[(''abxyx'', ''ay''), (''b'', ''abab'')]" and exs = exs and exs' = exs'
          and b = b, THEN conjunct2, THEN conjunct1] run
    by blast
  then have c: "enc_lens b ! 0 = enc_len (exs ! 0) \<and> enc_lens b ! 1 = enc_len (exs ! 1)"
    using l by simp
  show ?thesis using h0 h4 ex a run l c by blast
qed

section \<open>Flattened-index gather and scatter\<close>

lemma length_concat_rect:
  "\<forall>row \<in> set xss. length row = n \<Longrightarrow> length (concat xss) = length xss * n"
  by (induction xss) simp_all

lemma nth_concat_rect:
  "\<forall>row \<in> set xss. length row = n \<Longrightarrow> i < length xss \<Longrightarrow> j < n
     \<Longrightarrow> concat xss ! (i * n + j) = xss ! i ! j"
proof (induction xss arbitrary: i)
  case Nil
  then show ?case by simp
next
  case (Cons r rs)
  show ?case
  proof (cases i)
    case 0
    then show ?thesis using Cons.prems by (simp add: nth_append)
  next
    case (Suc i')
    then have "concat rs ! (i' * n + j) = rs ! i' ! j"
      using Cons.prems by (intro Cons.IH) simp_all
    then show ?thesis using Cons.prems Suc by (simp add: nth_append)
  qed
qed

lemma flat_index_less: "i < m \<Longrightarrow> j < n \<Longrightarrow> i * n + j < m * (n::nat)"
proof -
  assume a: "i < m" "j < n"
  then have "i * n + j < i * n + n" by simp
  also have "\<dots> = Suc i * n" by simp
  also have "\<dots> \<le> m * n" using a(1) by (intro mult_le_mono1) simp
  finally show ?thesis .
qed


lemma tf_shape1_rect:
  "\<forall>row \<in> set params. length row = n \<Longrightarrow> params \<noteq> [] \<Longrightarrow> tf_shape1 params = int n"
  by (cases params) (simp_all add: tf_shape1_def)

lemma tf_gather_in_range:
  "\<forall>i \<in> set idx. 0 \<le> i \<and> i < int (length flat)
     \<Longrightarrow> tf_gather flat idx = Inr (map (\<lambda>i. flat ! nat i) idx)"
  unfolding tf_gather_def by (rule for_each_total) simp

lemma nat_flat_index:
  "0 \<le> i \<Longrightarrow> 0 \<le> j \<Longrightarrow> nat (i * int n + j) = nat i * n + nat j"
  by (simp add: nat_add_distrib nat_mult_distrib)

text \<open>
  C8.  For a matrix \<open>params\<close> with \<open>m\<close> rows of \<open>n\<close> elements and index vectors of one
  length with \<open>0 \<le> indices1[k] < m\<close> and \<open>0 \<le> indices2[k] < n\<close>, \<open>gather_2d\<close> returns the
  vector whose \<open>k\<close>-th entry is \<open>params[indices1[k]][indices2[k]]\<close>, and that entry is the
  element of the flattened matrix at the index \<open>indices1[k] * n + indices2[k]\<close>.
\<close>

theorem gather_2d_flat_index:
  assumes rect: "\<forall>row \<in> set params. length row = n"
      and m: "length params = m"
      and len: "length indices1 = length indices2"
      and r1: "\<forall>k < length indices1. 0 \<le> indices1 ! k \<and> indices1 ! k < int m"
      and r2: "\<forall>k < length indices2. 0 \<le> indices2 ! k \<and> indices2 ! k < int n"
  shows "gather_2d params indices1 indices2
           = Inr (map (\<lambda>k. params ! nat (indices1 ! k) ! nat (indices2 ! k))
                    [0 ..< length indices1])
       \<and> gather_2d params indices1 indices2
           = Inr (map (\<lambda>k. tf_flatten params ! nat (indices1 ! k * int n + indices2 ! k))
                    [0 ..< length indices1])"
proof (cases "indices1 = []")
  case True
  then show ?thesis
    using len by (simp add: gather_2d_def tf_elementwise_def tf_gather_def)
next
  case False
  then have "0 < length indices1" by simp
  then have "0 < m" using r1 by fastforce
  then have ne: "params \<noteq> []" using m by auto
  have s1: "tf_shape1 params = int n" using rect ne by (rule tf_shape1_rect)
  let ?idx = "map2 (+) (map (\<lambda>i. i * int n) indices1) indices2"
  have e: "tf_elementwise (+) (map (\<lambda>i. i * int n) indices1) indices2 = Inr ?idx"
    using len by (simp add: tf_elementwise_def)
  have nthidx: "?idx ! k = indices1 ! k * int n + indices2 ! k" if "k < length indices1" for k
    using that len by simp
  have bound: "0 \<le> indices1 ! k \<and> 0 \<le> indices2 ! k
               \<and> nat (indices1 ! k) < m \<and> nat (indices2 ! k) < n" if "k < length indices1" for k
    using that r1 r2 len by (metis nat_less_iff)
  have lf: "length (tf_flatten params) = m * n"
    unfolding tf_flatten_def using length_concat_rect [OF rect] m by simp
  have inr: "\<forall>i \<in> set ?idx. 0 \<le> i \<and> i < int (length (tf_flatten params))"
  proof
    fix i assume "i \<in> set ?idx"
    then obtain k where k: "k < length indices1" "i = ?idx ! k"
      using len by (auto simp: in_set_conv_nth)
    have i: "i = indices1 ! k * int n + indices2 ! k" using k nthidx by simp
    from bound [OF k(1)] have b: "0 \<le> indices1 ! k" "0 \<le> indices2 ! k"
      "nat (indices1 ! k) < m" "nat (indices2 ! k) < n" by simp_all
    have "nat i = nat (indices1 ! k) * n + nat (indices2 ! k)"
      unfolding i using b by (simp add: nat_flat_index)
    also have "\<dots> < m * n" using b by (intro flat_index_less)
    finally have "nat i < length (tf_flatten params)"
      by (simp only: lf)
    moreover have "0 \<le> i" unfolding i using b by simp
    ultimately show "0 \<le> i \<and> i < int (length (tf_flatten params))" by linarith
  qed
  have g: "gather_2d params indices1 indices2 = Inr (map (\<lambda>i. tf_flatten params ! nat i) ?idx)"
    using tf_gather_in_range [OF inr] by (simp add: gather_2d_def s1 e)
  have a: "map (\<lambda>i. tf_flatten params ! nat i) ?idx
             = map (\<lambda>k. tf_flatten params ! nat (indices1 ! k * int n + indices2 ! k))
                 [0 ..< length indices1]"
    using len by (intro nth_equalityI) simp_all
  have b: "tf_flatten params ! nat (indices1 ! k * int n + indices2 ! k)
             = params ! nat (indices1 ! k) ! nat (indices2 ! k)" if "k < length indices1" for k
  proof -
    from bound [OF that] have b: "0 \<le> indices1 ! k" "0 \<le> indices2 ! k"
      "nat (indices1 ! k) < m" "nat (indices2 ! k) < n" by simp_all
    show ?thesis
      using b rect m by (simp add: nat_flat_index tf_flatten_def nth_concat_rect)
  qed
  have c: "map (\<lambda>k. tf_flatten params ! nat (indices1 ! k * int n + indices2 ! k))
                 [0 ..< length indices1]
             = map (\<lambda>k. params ! nat (indices1 ! k) ! nat (indices2 ! k)) [0 ..< length indices1]"
    using b by simp
  show ?thesis using g a c by simp
qed

theorem gather_2d_flat_index_witness:
  "length [[1, 2, 3], [4, 5, 6 :: int]] = 2
   \<and> length [1, 0, 1 :: int] = length [2, 0, 0 :: int]
   \<and> gather_2d [[1, 2, 3], [4, 5, 6 :: int]] [1, 0, 1] [2, 0, 0] = Inr [6, 1, 4]"
proof -
  have h1: "\<forall>row \<in> set [[1, 2, 3], [4, 5, 6 :: int]]. length row = 3" by simp
  have h2: "length [[1, 2, 3], [4, 5, 6 :: int]] = 2" by simp
  have h3: "length [1, 0, 1 :: int] = length [2, 0, 0 :: int]" by simp
  have h4: "\<forall>k < length [1, 0, 1 :: int]. 0 \<le> [1, 0, 1 :: int] ! k \<and> [1, 0, 1] ! k < int 2"
    by (simp add: nth_Cons' ) 
  have h5: "\<forall>k < length [2, 0, 0 :: int]. 0 \<le> [2, 0, 0 :: int] ! k \<and> [2, 0, 0] ! k < int 3"
    by (simp add: nth_Cons')
  have "gather_2d [[1, 2, 3], [4, 5, 6 :: int]] [1, 0, 1] [2, 0, 0] = Inr [6, 1, 4]"
    using gather_2d_flat_index [OF h1 h2 h3 h4 h5] by (simp add: upt_rec)
  then show ?thesis using h2 h3 by blast
qed

lemma length_stitch_fold:
  "length (fold (\<lambda>(i, v) merged. merged[nat i := v]) ps acc) = length acc"
  by (induction ps arbitrary: acc) (simp_all add: split_def)

lemma stitch_fold_zeros:
  "\<forall>p \<in> set ps. snd p = 0
     \<Longrightarrow> fold (\<lambda>(i, v) merged. merged[nat i := v]) ps (replicate n 0) = replicate n 0"
proof (induction ps)
  case Nil
  then show ?case by simp
next
  case (Cons p ps)
  have "(replicate n (0::'a))[nat (fst p) := 0] = replicate n 0"
  proof (rule nth_equalityI)
    show "length ((replicate n (0::'a))[nat (fst p) := 0]) = length (replicate n (0::'a))"
      by simp
    fix i assume "i < length ((replicate n (0::'a))[nat (fst p) := 0])"
    then show "(replicate n (0::'a))[nat (fst p) := 0] ! i = replicate n 0 ! i"
      by (cases "nat (fst p) = i") simp_all
  qed
  then show ?case using Cons by (simp add: split_def)
qed

lemma stitch_fold_untouched:
  "\<forall>p \<in> set ps. nat (fst p) \<noteq> j
     \<Longrightarrow> fold (\<lambda>(i, v) merged. merged[nat i := v]) ps acc ! j = acc ! j"
  by (induction ps arbitrary: acc) (simp_all add: split_def)

lemma stitch_fold_last:
  assumes "k < length ps" and "nat (fst (ps ! k)) < length acc"
      and "\<forall>j. k < j \<and> j < length ps \<longrightarrow> nat (fst (ps ! j)) \<noteq> nat (fst (ps ! k))"
  shows "fold (\<lambda>(i, v) merged. merged[nat i := v]) ps acc ! nat (fst (ps ! k)) = snd (ps ! k)"
  using assms
proof (induction ps arbitrary: acc k)
  case Nil
  then show ?case by simp
next
  case (Cons p ps)
  show ?case
  proof (cases k)
    case 0
    have "\<forall>q \<in> set ps. nat (fst q) \<noteq> nat (fst p)"
    proof
      fix q assume "q \<in> set ps"
      then obtain j where "j < length ps" "q = ps ! j" by (auto simp: in_set_conv_nth)
      then show "nat (fst q) \<noteq> nat (fst p)"
        using Cons.prems(3) [rule_format, of "Suc j"] 0 by simp
    qed
    then have "fold (\<lambda>(i, v) merged. merged[nat i := v]) ps (acc[nat (fst p) := snd p]) ! nat (fst p)
                = (acc[nat (fst p) := snd p]) ! nat (fst p)"
      by (rule stitch_fold_untouched)
    then show ?thesis using 0 Cons.prems(2) by (simp add: split_def)
  next
    case (Suc k')
    have "fold (\<lambda>(i, v) merged. merged[nat i := v]) ps (acc[nat (fst p) := snd p])
            ! nat (fst (ps ! k')) = snd (ps ! k')"
    proof (rule Cons.IH)
      show "k' < length ps" using Cons.prems(1) Suc by simp
      show "nat (fst (ps ! k')) < length (acc[nat (fst p) := snd p])"
        using Cons.prems(2) Suc by simp
      show "\<forall>j. k' < j \<and> j < length ps \<longrightarrow> nat (fst (ps ! j)) \<noteq> nat (fst (ps ! k'))"
      proof (intro allI impI)
        fix j assume "k' < j \<and> j < length ps"
        then show "nat (fst (ps ! j)) \<noteq> nat (fst (ps ! k'))"
          using Cons.prems(3) [rule_format, of "Suc j"] Suc by simp
      qed
    qed
    then show ?thesis using Suc by (simp add: split_def)
  qed
qed

lemma flat_index_unique:
  assumes "c < n" and "c' < n" and "r * n + c = r' * n + (c'::nat)"
  shows "r = r' \<and> c = c'"
proof -
  have "(r * n + c) div n = r" "(r * n + c) mod n = c" using assms(1) by simp_all
  moreover have "(r' * n + c') div n = r'" "(r' * n + c') mod n = c'" using assms(2) by simp_all
  ultimately show ?thesis using assms(3) by metis
qed

lemma tf_reshape2_nth:
  assumes "0 \<le> r" and "0 \<le> c" and "length flat = nat r * nat c"
  shows "\<exists>M. tf_reshape2 flat r c = Inr M \<and> length M = nat r
           \<and> (\<forall>row \<in> set M. length row = nat c)
           \<and> (\<forall>i j. i < nat r \<longrightarrow> j < nat c \<longrightarrow> M ! i ! j = flat ! (i * nat c + j))"
proof -
  let ?M = "map (\<lambda>i. take (nat c) (drop (i * nat c) flat)) [0 ..< nat r]"
  have e: "tf_reshape2 flat r c = Inr ?M" using assms by (simp add: tf_reshape2_def)
  have rows: "length (take (nat c) (drop (i * nat c) flat)) = nat c" if "i < nat r" for i
  proof -
    have "Suc i * nat c \<le> nat r * nat c" using that by (intro mult_le_mono1) simp
    then have "nat c \<le> nat r * nat c - i * nat c" by simp
    then show ?thesis using assms(3) by (simp add: min_absorb2)
  qed
  have "\<forall>row \<in> set ?M. length row = nat c" using rows by auto
  moreover have "?M ! i ! j = flat ! (i * nat c + j)" if "i < nat r" "j < nat c" for i j
  proof -
    have "i * nat c + j < nat r * nat c" using that by (rule flat_index_less)
    then show ?thesis using that assms(3) by simp
  qed
  ultimately show ?thesis using e by simp
qed

lemma stitch_size:
  assumes "\<forall>i \<in> set lin. 0 \<le> i \<and> nat i < N"
  shows "(case map int [0 ..< N] @ lin of [] \<Rightarrow> 0 | i # js \<Rightarrow> nat (fold max js i) + 1) = N"
proof (cases N)
  case 0
  then have "lin = []" using assms by (cases lin) auto
  then show ?thesis using 0 by simp
next
  case (Suc N')
  let ?l = "map int [0 ..< N] @ lin"
  have ne: "?l \<noteq> []" using Suc by simp
  then obtain i js where l: "?l = i # js" by (cases ?l) auto
  have "Max (set ?l) = int N'"
  proof (rule Max_eqI)
    show "finite (set ?l)" by simp
    show "int N' \<in> set ?l" using Suc by simp
    fix y assume "y \<in> set ?l"
    then show "y \<le> int N'" using assms Suc by auto
  qed
  then have "fold max js i = int N'"
    using Max.set_eq_fold [of i js] l by simp
  then show ?thesis using l Suc by simp
qed

lemma dynamic_stitch_onto_zeros:
  fixes dat :: "('a::zero) list"
  assumes r: "\<forall>i \<in> set lin. 0 \<le> i \<and> nat i < N" and len: "length lin = length dat"
  shows "dynamic_stitch [map int [0 ..< N], lin] [replicate N 0, dat]
           = Inr (fold (\<lambda>(i, v) merged. merged[nat i := v]) (zip lin dat) (replicate N 0))"
proof -
  have nonneg: "list_all (\<lambda>i. 0 \<le> i) (concat [map int [0 ..< N], lin])"
    using r by (auto simp: list_all_iff)
  have sz: "(case concat [map int [0 ..< N], lin] of [] \<Rightarrow> 0
             | i # js \<Rightarrow> nat (fold max js i) + 1) = N"
    using stitch_size [OF r] by simp
  have z: "fold (\<lambda>(i, v) merged. merged[nat i := v])
                (zip (map int [0 ..< N]) (replicate N (0::'a))) (replicate N 0) = replicate N 0"
    by (rule stitch_fold_zeros) (auto dest: set_zip_rightD)
  show ?thesis
    unfolding dynamic_stitch_def sz Let_def
    using nonneg len z by simp
qed

text \<open>
  C9 (as the code has it).  For non-negative \<open>B = batch_size\<close> and \<open>V = extended_vsize\<close>,
  inputs of one flattened length and indices in range, \<open>_scatter_nd\<close> returns a matrix of
  \<open>B\<close> rows and \<open>V\<close> columns.  An entry that no flat position names is zero.  The entry
  at row \<open>batch_nums[k]\<close>, column \<open>enc_batch[k]\<close> holds \<open>copy_dist[k]\<close> for the last flat
  position \<open>k\<close> that names this entry: a later position overwrites an earlier one.
\<close>

theorem scatter_nd_last_write:
  fixes copy_dist :: "('a::zero) list list"
  assumes B: "0 \<le> B" and V: "0 \<le> V"
      and len1: "length (tf_flatten batch_nums) = length (tf_flatten enc)"
      and len2: "length (tf_flatten copy_dist) = length (tf_flatten enc)"
      and rng: "\<forall>k < length (tf_flatten enc).
                  0 \<le> tf_flatten enc ! k \<and> tf_flatten enc ! k < V
                \<and> 0 \<le> tf_flatten batch_nums ! k \<and> tf_flatten batch_nums ! k < B"
  shows "\<exists>M. scatter_nd enc B batch_nums V copy_dist = Inr M
           \<and> length M = nat B
           \<and> (\<forall>row \<in> set M. length row = nat V)
           \<and> (\<forall>r c. r < nat B \<longrightarrow> c < nat V \<longrightarrow>
                 (\<forall>k < length (tf_flatten enc).
                    \<not> (tf_flatten batch_nums ! k = int r \<and> tf_flatten enc ! k = int c))
                 \<longrightarrow> M ! r ! c = 0)
           \<and> (\<forall>k < length (tf_flatten enc).
                 (\<forall>j. k < j \<and> j < length (tf_flatten enc) \<longrightarrow>
                    \<not> (tf_flatten batch_nums ! j = tf_flatten batch_nums ! k
                       \<and> tf_flatten enc ! j = tf_flatten enc ! k))
                 \<longrightarrow> M ! nat (tf_flatten batch_nums ! k) ! nat (tf_flatten enc ! k)
                       = tf_flatten copy_dist ! k)"
proof -
  define en where "en = tf_flatten enc"
  define bn where "bn = tf_flatten batch_nums"
  define cd where "cd = tf_flatten copy_dist"
  define L where "L = length en"
  define N where "N = nat B * nat V"
  define lin where "lin = map2 (+) (map (\<lambda>b. b * V) bn) en"
  define F where "F = fold (\<lambda>(i, v) merged. merged[nat i := v]) (zip lin cd) (replicate N 0)"
  have lb: "length bn = L" and lc: "length cd = L"
    using len1 len2 by (simp_all add: en_def bn_def cd_def L_def)
  have ll: "length lin = L" by (simp add: lin_def lb L_def)
  have r: "0 \<le> en ! k \<and> nat (en ! k) < nat V \<and> 0 \<le> bn ! k \<and> nat (bn ! k) < nat B"
    if "k < L" for k
  proof -
    have "0 \<le> en ! k \<and> en ! k < V \<and> 0 \<le> bn ! k \<and> bn ! k < B"
      using rng that by (simp add: en_def bn_def L_def)
    then show ?thesis by linarith
  qed
  have lk: "lin ! k = bn ! k * V + en ! k" if "k < L" for k
    using that lb by (simp add: lin_def L_def)
  have nk: "nat (lin ! k) = nat (bn ! k) * nat V + nat (en ! k)" if "k < L" for k
    using r [OF that] V lk [OF that] nat_flat_index [of "bn ! k" "en ! k" "nat V"] by simp
  have zeros: "tf_zeros2 B V = Inr (replicate (nat B) (replicate (nat V) (0::'a)))"
    using B V by (simp add: tf_zeros2_def)
  have lz: "length (tf_flatten (replicate (nat B) (replicate (nat V) (0::'a)))) = N"
    unfolding tf_flatten_def N_def
    using length_concat_rect [of "replicate (nat B) (replicate (nat V) (0::'a))" "nat V"] by simp
  have fz: "tf_flatten (replicate (nat B) (replicate (nat V) (0::'a))) = replicate N 0"
  proof (rule replicate_eqI)
    show "length (tf_flatten (replicate (nat B) (replicate (nat V) (0::'a)))) = N" by (rule lz)
    fix y assume "y \<in> set (tf_flatten (replicate (nat B) (replicate (nat V) (0::'a))))"
    then show "y = 0" by (auto simp: tf_flatten_def)
  qed
  have el: "tf_elementwise (+) (map (\<lambda>b. b * V) bn) en = Inr lin"
    using lb by (simp add: tf_elementwise_def lin_def L_def)
  have linr: "\<forall>i \<in> set lin. 0 \<le> i \<and> nat i < N"
  proof
    fix i assume "i \<in> set lin"
    then obtain k where k: "k < L" "i = lin ! k" using ll by (auto simp: in_set_conv_nth)
    have "nat (bn ! k) * nat V + nat (en ! k) < N"
      unfolding N_def using r [OF k(1)] by (intro flat_index_less) simp_all
    moreover have "0 \<le> i" using k r [OF k(1)] V lk [OF k(1)] by simp
    ultimately show "0 \<le> i \<and> nat i < N" using nk [OF k(1)] k(2) by simp
  qed
  have st: "dynamic_stitch [map int [0 ..< N], lin] [replicate N 0, cd] = Inr F"
    unfolding F_def using linr by (rule dynamic_stitch_onto_zeros) (simp add: ll lc)
  have lF: "length F = nat B * nat V"
    by (simp add: F_def length_stitch_fold N_def)
  obtain M where M: "tf_reshape2 F B V = Inr M" "length M = nat B"
    "\<forall>row \<in> set M. length row = nat V"
    "\<forall>i j. i < nat B \<longrightarrow> j < nat V \<longrightarrow> M ! i ! j = F ! (i * nat V + j)"
    using tf_reshape2_nth [OF B V lF] by blast
  have run: "scatter_nd enc B batch_nums V copy_dist = Inr M"
    unfolding scatter_nd_def zeros using el st M(1)
    by (simp add: fz en_def [symmetric] bn_def [symmetric] cd_def [symmetric] Let_def)
  have zip_nth: "zip lin cd ! k = (lin ! k, cd ! k)" if "k < L" for k
    using that ll lc by simp
  have untouched: "M ! r' ! c = 0"
    if rc: "r' < nat B" "c < nat V" and no: "\<forall>k < L. \<not> (bn ! k = int r' \<and> en ! k = int c)"
    for r' c
  proof -
    have "\<forall>p \<in> set (zip lin cd). nat (fst p) \<noteq> r' * nat V + c"
    proof
      fix p assume "p \<in> set (zip lin cd)"
      then obtain k where k: "k < L" "p = zip lin cd ! k"
        using ll lc by (auto simp: in_set_conv_nth)
      have "nat (fst p) = nat (bn ! k) * nat V + nat (en ! k)"
        using k zip_nth nk by simp
      moreover have "nat (bn ! k) * nat V + nat (en ! k) \<noteq> r' * nat V + c"
      proof
        assume "nat (bn ! k) * nat V + nat (en ! k) = r' * nat V + c"
        then have "nat (bn ! k) = r' \<and> nat (en ! k) = c"
          using flat_index_unique [of "nat (en ! k)" "nat V" c "nat (bn ! k)" r'] r [OF k(1)] rc
          by simp
        then have "bn ! k = int r' \<and> en ! k = int c" using r [OF k(1)] by auto
        then show False using no k(1) by simp
      qed
      ultimately show "nat (fst p) \<noteq> r' * nat V + c" by simp
    qed
    then have "F ! (r' * nat V + c) = replicate N 0 ! (r' * nat V + c)"
      unfolding F_def by (rule stitch_fold_untouched)
    moreover have "r' * nat V + c < N" unfolding N_def using rc by (rule flat_index_less)
    ultimately show ?thesis using M(4) rc by simp
  qed
  have written: "M ! nat (bn ! k) ! nat (en ! k) = cd ! k"
    if k: "k < L" and lastk: "\<forall>j. k < j \<and> j < L \<longrightarrow> \<not> (bn ! j = bn ! k \<and> en ! j = en ! k)"
    for k
  proof -
    have 1: "k < length (zip lin cd)" using k ll lc by simp
    have 2: "nat (fst (zip lin cd ! k)) < length (replicate N (0::'a))"
      using linr k ll zip_nth [OF k] by simp
    have 3: "\<forall>j. k < j \<and> j < length (zip lin cd)
                 \<longrightarrow> nat (fst (zip lin cd ! j)) \<noteq> nat (fst (zip lin cd ! k))"
    proof (intro allI impI)
      fix j assume j: "k < j \<and> j < length (zip lin cd)"
      then have jL: "j < L" using ll lc by simp
      show "nat (fst (zip lin cd ! j)) \<noteq> nat (fst (zip lin cd ! k))"
      proof
        assume "nat (fst (zip lin cd ! j)) = nat (fst (zip lin cd ! k))"
        then have "nat (bn ! j) * nat V + nat (en ! j) = nat (bn ! k) * nat V + nat (en ! k)"
          using zip_nth [OF jL] zip_nth [OF k] nk [OF jL] nk [OF k] by simp
        then have "nat (bn ! j) = nat (bn ! k) \<and> nat (en ! j) = nat (en ! k)"
          using flat_index_unique [of "nat (en ! j)" "nat V" "nat (en ! k)" "nat (bn ! j)"
                  "nat (bn ! k)"] r [OF jL] r [OF k]
          by simp
        then have "bn ! j = bn ! k \<and> en ! j = en ! k" using r [OF jL] r [OF k] by auto
        then show False using lastk j jL by simp
      qed
    qed
    have "F ! nat (fst (zip lin cd ! k)) = snd (zip lin cd ! k)"
      unfolding F_def using 1 2 3 by (rule stitch_fold_last)
    then have "F ! (nat (bn ! k) * nat V + nat (en ! k)) = cd ! k"
      using zip_nth [OF k] nk [OF k] by simp
    then show ?thesis using M(4) r [OF k] by simp
  qed
  show ?thesis
    using run M(2,3) untouched written
    unfolding en_def [symmetric] bn_def [symmetric] cd_def [symmetric] L_def [symmetric]
    by blast
qed

theorem scatter_nd_last_write_witness:
  "(0::int) \<le> 2 \<and> (0::int) \<le> 3
   \<and> length (tf_flatten [[0, 0], [1, 1 :: int]]) = length (tf_flatten [[0, 2], [1, 1 :: int]])
   \<and> length (tf_flatten [[1/8, 1/4], [1/2, 3/4 :: real]])
       = length (tf_flatten [[0, 2], [1, 1 :: int]])
   \<and> (\<exists>M. scatter_nd [[0, 2], [1, 1]] 2 [[0, 0], [1, 1]] 3 [[1/8, 1/4], [1/2, 3/4 :: real]]
              = Inr M
          \<and> length M = 2 \<and> M ! 0 ! 1 = 0 \<and> M ! 1 ! 1 = 3/4)"
proof -
  let ?enc = "[[0, 2], [1, 1 :: int]]"
  let ?bn = "[[0, 0], [1, 1 :: int]]"
  let ?cd = "[[1/8, 1/4], [1/2, 3/4 :: real]]"
  have h1: "(0::int) \<le> 2" and h2: "(0::int) \<le> 3" by simp_all
  have h3: "length (tf_flatten ?bn) = length (tf_flatten ?enc)" by (simp add: tf_flatten_def)
  have h4: "length (tf_flatten ?cd) = length (tf_flatten ?enc)" by (simp add: tf_flatten_def)
  have h5: "\<forall>k < length (tf_flatten ?enc).
                  0 \<le> tf_flatten ?enc ! k \<and> tf_flatten ?enc ! k < 3
                \<and> 0 \<le> tf_flatten ?bn ! k \<and> tf_flatten ?bn ! k < 2"
    by (simp add: tf_flatten_def nth_Cons')
  obtain M where M: "scatter_nd ?enc 2 ?bn 3 ?cd = Inr M" "length M = nat 2"
    "\<forall>r c. r < nat 2 \<longrightarrow> c < nat 3 \<longrightarrow>
        (\<forall>k < length (tf_flatten ?enc).
            \<not> (tf_flatten ?bn ! k = int r \<and> tf_flatten ?enc ! k = int c))
        \<longrightarrow> M ! r ! c = 0"
    "\<forall>k < length (tf_flatten ?enc).
        (\<forall>j. k < j \<and> j < length (tf_flatten ?enc) \<longrightarrow>
            \<not> (tf_flatten ?bn ! j = tf_flatten ?bn ! k \<and> tf_flatten ?enc ! j = tf_flatten ?enc ! k))
        \<longrightarrow> M ! nat (tf_flatten ?bn ! k) ! nat (tf_flatten ?enc ! k) = tf_flatten ?cd ! k"
    using scatter_nd_last_write [OF h1 h2 h3 h4 h5] by blast
  have a: "M ! 0 ! 1 = 0"
    using M(3) [rule_format, of 0 1] by (simp add: tf_flatten_def nth_Cons')
  have b: "M ! 1 ! 1 = 3/4"
    using M(4) [rule_format, of 3] by (simp add: tf_flatten_def)
  show ?thesis
    using h3 h4 M(1,2) a b by simp
qed

text \<open>
  C9 (as the claim words it) fails when two flat positions name the same entry: the
  entry cannot hold both values.  With \<open>enc_batch = [[0, 0]]\<close>, \<open>batch_nums = [[0, 0]]\<close>,
  one row, two columns and \<open>copy_dist = [[1/4, 3/4]]\<close> the entry at row \<open>0\<close>, column \<open>0\<close>
  is \<open>3/4\<close>, not the value \<open>1/4\<close> of the flat position \<open>0\<close>.
\<close>

theorem scatter_nd_overwrites_duplicates:
  "scatter_nd [[0, 0]] 1 [[0, 0]] 2 [[1/4, 3/4 :: real]] = Inr [[3/4, 0]]
   \<and> [[3/4, 0 :: real]] ! nat (tf_flatten [[0, 0]] ! 0) ! nat (tf_flatten [[0, 0]] ! 0)
       \<noteq> tf_flatten [[1/4, 3/4 :: real]] ! 0"
  by (simp add: scatter_nd_def tf_zeros2_def tf_flatten_def tf_elementwise_def
        dynamic_stitch_def tf_reshape2_def Let_def upt_rec eval_nat_numeral)

section \<open>Reading lines\<close>

lemma readline_at_end:
  "dropWhile (\<lambda>c. c \<noteq> newline) s = [] \<Longrightarrow> readline s = (s, [])"
  unfolding readline_def by (simp only: list.case)

lemma readline_at_newline:
  "dropWhile (\<lambda>c. c \<noteq> newline) s = c # rest
     \<Longrightarrow> readline s = (takeWhile (\<lambda>c. c \<noteq> newline) s @ [c], rest)"
  unfolding readline_def by (simp only: list.case)

lemma readline_split: "fst (readline s) @ snd (readline s) = s"
proof (cases "dropWhile (\<lambda>c. c \<noteq> newline) s")
  case Nil
  then show ?thesis by (simp only: readline_at_end fst_conv snd_conv append_Nil2)
next
  case (Cons c rest)
  have "takeWhile (\<lambda>c. c \<noteq> newline) s @ dropWhile (\<lambda>c. c \<noteq> newline) s = s"
    by (rule takeWhile_dropWhile_id)
  then show ?thesis by (simp add: readline_at_newline [OF Cons] Cons)
qed

lemma readline_length: "length (fst (readline s)) + length (snd (readline s)) = length s"
  by (metis length_append readline_split)

lemma readline_eof: "readline [] = ([], [])"
  by (simp add: readline_def)

lemma readline_line_nonempty: "s \<noteq> [] \<Longrightarrow> fst (readline s) \<noteq> []"
proof (cases "dropWhile (\<lambda>c. c \<noteq> newline) s")
  case Nil
  assume "s \<noteq> []"
  then show ?thesis by (simp add: readline_at_end [OF Nil])
next
  case (Cons c rest)
  then show ?thesis by (simp add: readline_at_newline [OF Cons])
qed

lemma readline_line_empty_iff: "fst (readline s) = [] \<longleftrightarrow> s = []"
  using readline_line_nonempty [of s] by (auto simp: readline_eof)

lemma readline_consumes: "s \<noteq> [] \<Longrightarrow> length (snd (readline s)) < length s"
  using readline_length [of s] readline_line_nonempty [of s]
  by (metis add.commute length_greater_0_conv less_add_same_cancel1)

lemma readline_one_line: "newline \<notin> set (butlast (fst (readline s)))"
proof (cases "dropWhile (\<lambda>c. c \<noteq> newline) s")
  case Nil
  then have "\<forall>c \<in> set s. c \<noteq> newline" by (simp add: dropWhile_eq_Nil_conv)
  then have "newline \<notin> set s" by auto
  then show ?thesis by (auto simp: readline_at_end [OF Nil] dest: in_set_butlastD)
next
  case (Cons c rest)
  have "newline \<notin> set (takeWhile (\<lambda>c. c \<noteq> newline) s)"
    by (auto dest: set_takeWhileD)
  then show ?thesis by (simp add: readline_at_newline [OF Cons])
qed

lemma decode_loop_eof:
  "linex = [] \<or> liney = [] \<Longrightarrow> decode_loop vocab h linex liney batch = Some (Inr batch)"
  by (subst decode_loop.simps) auto

lemma decode_loop_fills:
  assumes "linex \<noteq> []" and "liney \<noteq> []"
      and "Example_init vocab h (remove_nonascii vocab linex) (remove_nonascii vocab liney) = Inr ex"
      and "int (length batch) < batch_size h"
  shows "decode_loop vocab h linex liney batch
           = Some (Inr (batch @ replicate (nat (batch_size h) - length batch) ex))"
  using assms(4)
proof (induction "nat (batch_size h) - length batch" arbitrary: batch)
  case 0
  then show ?case by linarith
next
  case (Suc d)
  show ?case
  proof (cases "int (length (batch @ [ex])) = batch_size h")
    case True
    then have "nat (batch_size h) - length batch = Suc 0" by simp
    then show ?thesis
      using True assms(1-3) by (subst decode_loop.simps) simp
  next
    case False
    then have lt: "int (length (batch @ [ex])) < batch_size h" using Suc.prems by simp
    have d: "d = nat (batch_size h) - length (batch @ [ex])" using Suc.hyps(2) by simp
    have "decode_loop vocab h linex liney (batch @ [ex])
            = Some (Inr ((batch @ [ex]) @ replicate (nat (batch_size h) - length (batch @ [ex])) ex))"
      using Suc.hyps(1) [OF d lt] .
    moreover have "nat (batch_size h) - length batch
                     = Suc (nat (batch_size h) - length (batch @ [ex]))"
      using lt by simp
    ultimately show ?thesis
      using False assms(1-3) by (subst decode_loop.simps) (simp add: replicate_app_Cons_same)
  qed
qed

lemma Batch_init_empty: "Batch_init [] h vocab = Inl ValueError"
  by (simp add: Batch_init_def init_encoder_seq_def py_max_def)

lemma refill_decode_eof:
  assumes "mode h = ''decode''" and "fdx self = [] \<or> fdy self = []"
  shows "refill vocab h single_pass self = Some (Inl ValueError)"
proof -
  have "fst (readline (fdx self)) = [] \<or> fst (readline (fdy self)) = []"
    using assms(2) by (auto simp: readline_eof)
  then have "decode_loop vocab h (fst (readline (fdx self))) (fst (readline (fdy self))) []
               = Some (Inr [])"
    by (rule decode_loop_eof)
  then show ?thesis
    using assms(1) by (simp add: refill_def Batch_init_empty)
qed

section \<open>Refill in decode mode\<close>

lemma decode_loop_result:
  fixes vocab :: "('w, 'b, 'r) ext"
  assumes run: "decode_loop vocab h linex liney batch = Some y"
  shows "\<forall>res. y = Inr res \<longrightarrow> linex \<noteq> [] \<longrightarrow> liney \<noteq> [] \<longrightarrow>
        (\<exists>ex. Example_init vocab h (remove_nonascii vocab linex) (remove_nonascii vocab liney)
                 = Inr ex
             \<and> res = batch @ replicate (length res - length batch) ex
             \<and> int (length res) = batch_size h
             \<and> length batch < length res)"
proof (rule decode_loop.raw_induct
         [where P = "\<lambda>(vocab :: ('w, 'b, 'r) ext) h linex liney batch y.
            \<forall>res. y = Inr res \<longrightarrow> linex \<noteq> [] \<longrightarrow> liney \<noteq> [] \<longrightarrow>
              (\<exists>ex. Example_init vocab h (remove_nonascii vocab linex) (remove_nonascii vocab liney)
                       = Inr ex
                   \<and> res = batch @ replicate (length res - length batch) ex
                   \<and> int (length res) = batch_size h
                   \<and> length batch < length res)", OF _ run])
  fix loop :: "('w, 'b, 'r) ext \<Rightarrow> hps \<Rightarrow> string \<Rightarrow> string \<Rightarrow> 'w Example list
                 \<Rightarrow> (error + 'w Example list) option"
  fix vocab :: "('w, 'b, 'r) ext" and h linex liney batch y
  assume IH: "\<And>vocab h linex liney batch y. loop vocab h linex liney batch = Some y \<Longrightarrow>
        \<forall>res. y = Inr res \<longrightarrow> linex \<noteq> [] \<longrightarrow> liney \<noteq> [] \<longrightarrow>
              (\<exists>ex. Example_init vocab h (remove_nonascii vocab linex) (remove_nonascii vocab liney)
                       = Inr ex
                   \<and> res = batch @ replicate (length res - length batch) ex
                   \<and> int (length res) = batch_size h
                   \<and> length batch < length res)"
  assume body: "(if linex \<noteq> [] \<and> liney \<noteq> []
      then case Example_init vocab h (remove_nonascii vocab linex)
                 (remove_nonascii vocab liney) of
           Inl e \<Rightarrow> Some (Inl e)
           | Inr example \<Rightarrow>
               if int (length (batch @ [example])) = batch_size h
               then Some (Inr (batch @ [example]))
               else loop vocab h linex liney (batch @ [example])
      else Some (Inr batch)) = Some y"
  show "\<forall>res. y = Inr res \<longrightarrow> linex \<noteq> [] \<longrightarrow> liney \<noteq> [] \<longrightarrow>
              (\<exists>ex. Example_init vocab h (remove_nonascii vocab linex) (remove_nonascii vocab liney)
                       = Inr ex
                   \<and> res = batch @ replicate (length res - length batch) ex
                   \<and> int (length res) = batch_size h
                   \<and> length batch < length res)"
  proof (intro allI impI)
    fix res assume y: "y = Inr res" and l: "linex \<noteq> []" "liney \<noteq> []"
    show "\<exists>ex. Example_init vocab h (remove_nonascii vocab linex) (remove_nonascii vocab liney)
                 = Inr ex
             \<and> res = batch @ replicate (length res - length batch) ex
             \<and> int (length res) = batch_size h
             \<and> length batch < length res"
    proof (cases "Example_init vocab h (remove_nonascii vocab linex) (remove_nonascii vocab liney)")
      case (Inl e)
      then show ?thesis using body l y by simp
    next
      case (Inr example)
      show ?thesis
      proof (cases "int (length (batch @ [example])) = batch_size h")
        case True
        then have r: "res = batch @ [example]" using body l y Inr by simp
        have c2: "res = batch @ replicate (length res - length batch) example"
          unfolding r by simp
        have c3: "int (length res) = batch_size h" unfolding r using True .
        have c4: "length batch < length res" unfolding r by simp
        show ?thesis
          by (intro exI [of _ example] conjI) (fact Inr, fact c2, fact c3, fact c4)
      next
        case False
        then have "loop vocab h linex liney (batch @ [example]) = Some (Inr res)"
          using body l y Inr by simp
        from IH [OF this, rule_format, OF refl l]
        obtain ex where ex:
          "Example_init vocab h (remove_nonascii vocab linex) (remove_nonascii vocab liney) = Inr ex"
          "res = (batch @ [example]) @ replicate (length res - length (batch @ [example])) ex"
          "int (length res) = batch_size h" "length (batch @ [example]) < length res"
          by (elim exE conjE) (rule that)
        define n where "n = length res - length (batch @ [example])"
        have e: "ex = example" using ex(1) Inr by simp
        have r: "res = (batch @ [example]) @ replicate n ex"
          using ex(2) unfolding n_def .
        have d: "length res - length batch = Suc n"
          unfolding n_def using ex(4) by simp
        have "batch @ replicate (Suc n) ex = (batch @ [example]) @ replicate n ex"
          using e by simp
        then have "batch @ replicate (length res - length batch) ex = res"
          unfolding d using r by (rule trans [OF _ sym])
        then have c2: "res = batch @ replicate (length res - length batch) ex" by (rule sym)
        have c4: "length batch < length res" using ex(4) by simp
        show ?thesis
          by (intro exI [of _ ex] conjI) (fact ex(1), fact c2, fact ex(3), fact c4)
      qed
    qed
  qed
qed

text \<open>
  C10.  In decode mode, a call of \<open>refill\<close> that returns has read exactly one line from
  each file, has built the example of this line pair, and has appended one batch to
  \<open>self.batches\<close>: the batch built from \<open>batch_size\<close> copies of that example.  The call
  returns whenever both files have an unread line, \<open>batch_size \<ge> 1\<close> and
  \<open>max_dec_steps \<ge> 0\<close>.
\<close>

theorem refill_decode_repeats_one_pair:
  fixes vocab :: "('w, 'w Batch, 'r) ext"
  assumes dm: "mode h = ''decode''"
      and a2i: "pointer_gen h \<longrightarrow> (\<forall>ws. length (fst (article2ids vocab ws)) = length ws)"
  shows "(1 \<le> batch_size h \<and> 0 \<le> max_dec_steps h \<and> fdx self \<noteq> [] \<and> fdy self \<noteq> []
            \<longrightarrow> (\<exists>self'. refill vocab h single_pass self = Some (Inr self')))
       \<and> (refill vocab h single_pass self = Some (Inr self') \<longrightarrow>
             1 \<le> batch_size h \<and> fdx self \<noteq> [] \<and> fdy self \<noteq> []
           \<and> (\<exists>ex exs b.
                 Example_init vocab h (remove_nonascii vocab (fst (readline (fdx self))))
                   (remove_nonascii vocab (fst (readline (fdy self)))) = Inr ex
               \<and> Batch_init (replicate (nat (batch_size h)) ex) h vocab = Inr (exs, b)
               \<and> self' = self\<lparr> batches := batches self @ [b],
                                 fdx := snd (readline (fdx self)),
                                 fdy := snd (readline (fdy self)) \<rparr>
               \<and> original_articles b
                   = replicate (nat (batch_size h))
                       (remove_nonascii vocab (fst (readline (fdx self))))
               \<and> original_abstracts b
                   = replicate (nat (batch_size h))
                       (remove_nonascii vocab (fst (readline (fdy self)))))
           \<and> fdx self = fst (readline (fdx self)) @ fdx self'
           \<and> fst (readline (fdx self)) \<noteq> []
           \<and> newline \<notin> set (butlast (fst (readline (fdx self))))
           \<and> fdy self = fst (readline (fdy self)) @ fdy self'
           \<and> fst (readline (fdy self)) \<noteq> []
           \<and> newline \<notin> set (butlast (fst (readline (fdy self)))))"
proof -
  let ?linex = "fst (readline (fdx self))" and ?liney = "fst (readline (fdy self))"
  let ?next = "\<lambda>b. self\<lparr> batches := batches self @ [b],
                         fdx := snd (readline (fdx self)),
                         fdy := snd (readline (fdy self)) \<rparr>"
  have built: "\<exists>ex exs b.
       Example_init vocab h (remove_nonascii vocab ?linex) (remove_nonascii vocab ?liney) = Inr ex
     \<and> Batch_init (replicate (nat (batch_size h)) ex) h vocab = Inr (exs, b)
     \<and> refill vocab h single_pass self = Some (Inr (?next b))
     \<and> original_articles b = replicate (nat (batch_size h)) (remove_nonascii vocab ?linex)
     \<and> original_abstracts b = replicate (nat (batch_size h)) (remove_nonascii vocab ?liney)"
    if bs: "1 \<le> batch_size h" and nn: "0 \<le> max_dec_steps h"
      and lx: "fdx self \<noteq> []" and ly: "fdy self \<noteq> []"
  proof -
    have l: "?linex \<noteq> []" "?liney \<noteq> []"
      using lx ly by (simp_all add: readline_line_nonempty)
    obtain ex where ex:
      "Example_init vocab h (remove_nonascii vocab ?linex) (remove_nonascii vocab ?liney) = Inr ex"
      "Example_ok h ex"
      "original_article ex = remove_nonascii vocab ?linex"
      "original_abstract ex = remove_nonascii vocab ?liney"
      using Example_init_ok [OF nn a2i] by blast
    let ?batch = "replicate (nat (batch_size h)) ex"
    have "decode_loop vocab h ?linex ?liney []
            = Some (Inr ([] @ replicate (nat (batch_size h) - length ([] :: 'w Example list)) ex))"
      using l ex(1) bs by (intro decode_loop_fills) simp_all
    then have dl: "decode_loop vocab h ?linex ?liney [] = Some (Inr ?batch)" by simp
    have ne: "?batch \<noteq> []" using bs by auto
    have le: "int (length ?batch) \<le> batch_size h" using bs by simp
    have ok: "\<forall>e \<in> set ?batch. Example_ok h e" using ex(2) by simp
    obtain exs b where b:
      "Batch_init ?batch h vocab = Inr (exs, b)"
      "original_articles b = map original_article ?batch"
      "original_abstracts b = map original_abstract ?batch"
      using Batch_init_ok [OF ne le nn ok, of vocab] by blast
    have r: "refill vocab h single_pass self = Some (Inr (?next b))"
      using dm by (simp add: refill_def dl b(1))
    show ?thesis
      using ex(1) b(1) r b(2,3) ex(3,4)
      by (intro exI [of _ ex] exI [of _ exs] exI [of _ b]) simp
  qed
  have total: "1 \<le> batch_size h \<and> 0 \<le> max_dec_steps h \<and> fdx self \<noteq> [] \<and> fdy self \<noteq> []
            \<longrightarrow> (\<exists>self'. refill vocab h single_pass self = Some (Inr self'))"
    using built by blast
  have partial: "1 \<le> batch_size h \<and> fdx self \<noteq> [] \<and> fdy self \<noteq> []
           \<and> (\<exists>ex exs b.
                 Example_init vocab h (remove_nonascii vocab ?linex)
                   (remove_nonascii vocab ?liney) = Inr ex
               \<and> Batch_init (replicate (nat (batch_size h)) ex) h vocab = Inr (exs, b)
               \<and> self' = ?next b
               \<and> original_articles b
                   = replicate (nat (batch_size h)) (remove_nonascii vocab ?linex)
               \<and> original_abstracts b
                   = replicate (nat (batch_size h)) (remove_nonascii vocab ?liney))
           \<and> fdx self = ?linex @ fdx self'
           \<and> ?linex \<noteq> []
           \<and> newline \<notin> set (butlast ?linex)
           \<and> fdy self = ?liney @ fdy self'
           \<and> ?liney \<noteq> []
           \<and> newline \<notin> set (butlast ?liney)"
    if run: "refill vocab h single_pass self = Some (Inr self')"
  proof -
    from run dm obtain batch exs0 b0 where d:
      "decode_loop vocab h ?linex ?liney [] = Some (Inr batch)"
      "Batch_init batch h vocab = Inr (exs0, b0)"
      by (auto simp: refill_def split: option.splits sum.splits prod.splits)
    from Batch_init_Inr [OF d(2)] have pre: "batch \<noteq> []" "0 \<le> max_dec_steps h" by simp_all
    have l: "?linex \<noteq> []" "?liney \<noteq> []"
    proof -
      have "\<not> (?linex = [] \<or> ?liney = [])"
      proof
        assume "?linex = [] \<or> ?liney = []"
        then have "decode_loop vocab h ?linex ?liney [] = Some (Inr [])"
          by (rule decode_loop_eof)
        then show False using d(1) pre(1) by simp
      qed
      then show "?linex \<noteq> []" "?liney \<noteq> []" by simp_all
    qed
    have f: "fdx self \<noteq> []" "fdy self \<noteq> []"
      using l by (auto simp: readline_eof)
    from decode_loop_result [OF d(1), rule_format, OF refl l]
    have "int (length batch) = batch_size h" by (elim exE conjE)
    then have bs: "1 \<le> batch_size h" using pre(1) by (cases batch) auto
    from built [OF bs pre(2) f] obtain ex exs b where b:
      "Example_init vocab h (remove_nonascii vocab ?linex) (remove_nonascii vocab ?liney) = Inr ex"
      "Batch_init (replicate (nat (batch_size h)) ex) h vocab = Inr (exs, b)"
      "refill vocab h single_pass self = Some (Inr (?next b))"
      "original_articles b = replicate (nat (batch_size h)) (remove_nonascii vocab ?linex)"
      "original_abstracts b = replicate (nat (batch_size h)) (remove_nonascii vocab ?liney)"
      by (elim exE conjE) (rule that)
    have s: "self' = ?next b" using run b(3) by simp
    have x: "fdx self = ?linex @ fdx self'" "fdy self = ?liney @ fdy self'"
      unfolding s by (simp_all add: readline_split)
    have "\<exists>ex exs b.
                 Example_init vocab h (remove_nonascii vocab ?linex)
                   (remove_nonascii vocab ?liney) = Inr ex
               \<and> Batch_init (replicate (nat (batch_size h)) ex) h vocab = Inr (exs, b)
               \<and> self' = ?next b
               \<and> original_articles b
                   = replicate (nat (batch_size h)) (remove_nonascii vocab ?linex)
               \<and> original_abstracts b
                   = replicate (nat (batch_size h)) (remove_nonascii vocab ?liney)"
      by (intro exI [of _ ex] exI [of _ exs] exI [of _ b] conjI)
         (fact b(1), fact b(2), fact s, fact b(4), fact b(5))
    then show ?thesis
      using bs f x l readline_one_line [of "fdx self"] readline_one_line [of "fdy self"]
      by (intro conjI)
  qed
  show ?thesis
    using total partial by (intro conjI impI) blast+
qed

theorem refill_decode_repeats_one_pair_witness:
  "mode demo_decode_hps = ''decode''
   \<and> (\<forall>ws. length (fst (article2ids demo_vocab ws)) = length ws)
   \<and> 1 \<le> batch_size demo_decode_hps
   \<and> 0 \<le> max_dec_steps demo_decode_hps
   \<and> (\<exists>b. refill demo_vocab demo_decode_hps True
              \<lparr> batches = [], fdx = [CHR ''a'', CHR ''b'', newline, CHR ''b'', newline],
                fdy = [CHR ''a'', newline, CHR ''b'', newline], rng = 0 :: nat, warnings = [] \<rparr>
            = Some (Inr \<lparr> batches = [b], fdx = [CHR ''b'', newline],
                          fdy = [CHR ''b'', newline], rng = 0, warnings = [] \<rparr>)
          \<and> original_articles b = [''ab'', ''ab'']
          \<and> original_abstracts b = [''a'', ''a''])"
proof -
  let ?self = "\<lparr> batches = [], fdx = [CHR ''a'', CHR ''b'', newline, CHR ''b'', newline],
                fdy = [CHR ''a'', newline, CHR ''b'', newline], rng = 0 :: nat, warnings = [] \<rparr>
               :: (char, nat) Batcher"
  have h1: "mode demo_decode_hps = ''decode''" by (simp add: demo_decode_hps_def)
  have h2: "1 \<le> batch_size demo_decode_hps" by (simp add: demo_decode_hps_def)
  have h3: "0 \<le> max_dec_steps demo_decode_hps" by (simp add: demo_decode_hps_def)
  have h4: "\<forall>ws. length (fst (article2ids demo_vocab ws)) = length ws"
    by (simp add: demo_vocab_def length_article2ids_model)
  then have h4': "pointer_gen demo_decode_hps \<longrightarrow>
                    (\<forall>ws. length (fst (article2ids demo_vocab ws)) = length ws)" by simp
  have h5: "fdx ?self \<noteq> []" and h6: "fdy ?self \<noteq> []" by simp_all
  have rx: "readline (fdx ?self) = ([CHR ''a'', CHR ''b'', newline], [CHR ''b'', newline])"
    by (simp add: readline_def newline_def)
  have ry: "readline (fdy ?self) = ([CHR ''a'', newline], [CHR ''b'', newline])"
    by (simp add: readline_def newline_def)
  have nx: "remove_nonascii demo_vocab [CHR ''a'', CHR ''b'', newline] = ''ab''"
    by (simp add: demo_vocab_def newline_def)
  have ny: "remove_nonascii demo_vocab [CHR ''a'', newline] = ''a''"
    by (simp add: demo_vocab_def newline_def)
  obtain self' where run: "refill demo_vocab demo_decode_hps True ?self = Some (Inr self')"
    using refill_decode_repeats_one_pair [OF h1 h4', where self = ?self and single_pass = True, THEN conjunct1] h2 h3 h5 h6
    by blast
  have "\<exists>ex exs b.
           self' = ?self\<lparr> batches := batches ?self @ [b],
                            fdx := snd (readline (fdx ?self)),
                            fdy := snd (readline (fdy ?self)) \<rparr>
         \<and> original_articles b
             = replicate (nat (batch_size demo_decode_hps))
                 (remove_nonascii demo_vocab (fst (readline (fdx ?self))))
         \<and> original_abstracts b
             = replicate (nat (batch_size demo_decode_hps))
                 (remove_nonascii demo_vocab (fst (readline (fdy ?self))))"
    using refill_decode_repeats_one_pair [OF h1 h4', where self = ?self and single_pass = True and self' = self', THEN conjunct2] run
    by blast
  then obtain b where b:
    "self' = \<lparr> batches = [b], fdx = [CHR ''b'', newline],
               fdy = [CHR ''b'', newline], rng = 0, warnings = [] \<rparr>"
    "original_articles b = [''ab'', ''ab'']" "original_abstracts b = [''a'', ''a'']"
    unfolding rx ry fst_conv snd_conv nx ny
    by (auto simp: demo_decode_hps_def numeral_2_eq_2)
  show ?thesis using h1 h4 h2 h3 run b by blast
qed

section \<open>Refill outside decode mode\<close>

lemma readline_rest_le: "length (snd (readline s)) \<le> length s"
  using readline_length [of s] by linarith

lemma read_loop_stops_at_eof:
  "linex = [] \<or> liney = []
     \<Longrightarrow> read_loop vocab h linex liney fx fy inputs warns = Inr (fx, fy, inputs, warns)"
  by (subst read_loop.simps) auto

lemma read_loop_skips_empty_article:
  "linex \<noteq> [] \<Longrightarrow> liney \<noteq> [] \<Longrightarrow> remove_nonascii vocab linex = []
     \<Longrightarrow> read_loop vocab h linex liney fx fy inputs warns
         = read_loop vocab h (fst (readline fx)) (fst (readline fy))
             (snd (readline fx)) (snd (readline fy)) inputs (warns @ [empty_article_warning])"
  by (subst read_loop.simps) simp

lemma read_loop_ok:
  fixes vocab :: "('w, 'b, 'r) ext"
  shows "0 \<le> max_dec_steps h \<Longrightarrow>
         pointer_gen h \<longrightarrow> (\<forall>ws. length (fst (article2ids vocab ws)) = length ws) \<Longrightarrow>
         \<forall>ex \<in> set inputs. Example_ok h ex \<Longrightarrow>
         \<exists>fx' fy' new warns'.
           read_loop vocab h linex liney fx fy inputs warns = Inr (fx', fy', inputs @ new, warns')
         \<and> (\<forall>ex \<in> set new. Example_ok h ex)
         \<and> length fx' \<le> length fx
         \<and> (linex = [] \<or> liney = [] \<longrightarrow> new = [])"
proof (induction vocab h linex liney fx fy inputs warns rule: read_loop.induct)
  case (1 vocab h linex liney fx fy inputs warns)
  note nn = "1.prems"(1) and a2i = "1.prems"(2) and ok = "1.prems"(3)
  show ?case
  proof (cases "linex \<noteq> [] \<and> liney \<noteq> []")
    case False
    then have "read_loop vocab h linex liney fx fy inputs warns = Inr (fx, fy, inputs @ [], warns)"
      by (simp add: read_loop_stops_at_eof)
    then show ?thesis by (intro exI [of _ fx] exI [of _ fy] exI [of _ "[]"] exI [of _ warns]) simp
  next
    case True
    show ?thesis
    proof (cases "length (remove_nonascii vocab linex) = 0")
      case e: True
      obtain fx' fy' new warns' where r:
        "read_loop vocab h (fst (readline fx)) (fst (readline fy))
             (snd (readline fx)) (snd (readline fy)) inputs (warns @ [empty_article_warning])
           = Inr (fx', fy', inputs @ new, warns')"
        "\<forall>ex \<in> set new. Example_ok h ex" "length fx' \<le> length (snd (readline fx))"
        using "1.IH"(1) [OF True e nn a2i ok] by blast
      have "read_loop vocab h linex liney fx fy inputs warns = Inr (fx', fy', inputs @ new, warns')"
        using True e r(1) by (subst read_loop.simps) simp
      moreover have "length fx' \<le> length fx"
        using r(3) readline_rest_le [of fx] by linarith
      ultimately show ?thesis using r(2) True by blast
    next
      case ne: False
      obtain example where ex:
        "Example_init vocab h (remove_nonascii vocab linex) (remove_nonascii vocab liney)
           = Inr example" "Example_ok h example"
        using Example_init_ok [OF nn a2i] by blast
      show ?thesis
      proof (cases "int (length (inputs @ [example])) = batch_size h * 16")
        case full: True
        have "read_loop vocab h linex liney fx fy inputs warns
                = Inr (fx, fy, inputs @ [example], warns)"
          using True ne ex(1) full by (subst read_loop.simps) simp
        then show ?thesis using ex(2) True
          by (intro exI [of _ fx] exI [of _ fy] exI [of _ "[example]"] exI [of _ warns]) simp
      next
        case more: False
        have ok': "\<forall>e \<in> set (inputs @ [example]). Example_ok h e" using ok ex(2) by simp
        obtain fx' fy' new warns' where r:
          "read_loop vocab h (fst (readline fx)) (fst (readline fy))
             (snd (readline fx)) (snd (readline fy)) (inputs @ [example]) warns
           = Inr (fx', fy', (inputs @ [example]) @ new, warns')"
          "\<forall>ex \<in> set new. Example_ok h ex" "length fx' \<le> length (snd (readline fx))"
          using "1.IH"(2) [OF True ne ex(1) more nn a2i ok'] by blast
        have "read_loop vocab h linex liney fx fy inputs warns
                = Inr (fx', fy', inputs @ ([example] @ new), warns')"
          using True ne ex(1) more r(1) by (subst read_loop.simps) simp
        moreover have "length fx' \<le> length fx"
          using r(3) readline_rest_le [of fx] by linarith
        moreover have "\<forall>e \<in> set ([example] @ new). Example_ok h e" using ex(2) r(2) by simp
        ultimately show ?thesis using True by blast
      qed
    qed
  qed
qed

lemma xrange_from_step:
  "0 < k \<Longrightarrow> i < n \<Longrightarrow> xrange_from i n k = i # xrange_from (i + k) n k"
  by (subst xrange_from.simps) simp

lemma xrange_from_done: "\<not> (0 < k \<and> i < n) \<Longrightarrow> xrange_from i n k = []"
  by (subst xrange_from.simps) simp

lemma xrange_from_less: "s \<in> set (xrange_from i n k) \<Longrightarrow> s < n"
proof (induction i n k rule: xrange_from.induct)
  case (1 start stop step)
  show ?case
  proof (cases "0 < step \<and> start < stop")
    case True
    then have "xrange_from start stop step = start # xrange_from (start + step) stop step"
      by (simp add: xrange_from_step)
    with "1.prems" have "s = start \<or> s \<in> set (xrange_from (start + step) stop step)" by simp
    then show ?thesis
    proof
      assume "s = start"
      then show ?thesis using True by simp
    next
      assume "s \<in> set (xrange_from (start + step) stop step)"
      then show ?thesis using "1.IH" [OF True] by simp
    qed
  next
    case False
    then have "xrange_from start stop step = []" by (rule xrange_from_done)
    with "1.prems" show ?thesis by simp
  qed
qed

lemma concat_chunks:
  "0 < k \<Longrightarrow> concat (map (\<lambda>s. take k (drop s xs)) (xrange_from i (length xs) k)) = drop i xs"
proof (induction i "length xs" k rule: xrange_from.induct)
  case (1 start step)
  show ?case
  proof (cases "start < length xs")
    case True
    have t: "take step (drop start xs) @ drop (start + step) xs = drop start xs"
      by (metis add.commute append_take_drop_id drop_drop)
    have "concat (map (\<lambda>s. take step (drop s xs)) (xrange_from (start + step) (length xs) step))
            = drop (start + step) xs"
      using "1.hyps" "1.prems" True by simp
    then show ?thesis
      using t by (simp add: xrange_from_step [OF "1.prems" True])
  next
    case False
    then show ?thesis by (simp add: xrange_from_done)
  qed
qed

lemma butlast_chunks_full:
  "0 < k \<Longrightarrow> g \<in> set (butlast (map (\<lambda>s. take k (drop s xs)) (xrange_from i (length xs) k)))
     \<Longrightarrow> length g = k"
proof (induction i "length xs" k arbitrary: g rule: xrange_from.induct)
  case (1 start step)
  show ?case
  proof (cases "start < length xs")
    case False
    then have "xrange_from start (length xs) step = []" by (simp add: xrange_from_done)
    then show ?thesis using "1.prems" by simp
  next
    case True
    let ?rest = "map (\<lambda>s. take step (drop s xs)) (xrange_from (start + step) (length xs) step)"
    have u: "map (\<lambda>s. take step (drop s xs)) (xrange_from start (length xs) step)
               = take step (drop start xs) # ?rest"
      by (simp add: xrange_from_step [OF "1.prems"(1) True])
    show ?thesis
    proof (cases "?rest = []")
      case True
      then show ?thesis using "1.prems"(2) u by simp
    next
      case False
      then have ne: "xrange_from (start + step) (length xs) step \<noteq> []" by auto
      have "start + step < length xs"
      proof (rule ccontr)
        assume "\<not> start + step < length xs"
        then have "xrange_from (start + step) (length xs) step = []"
          by (simp add: xrange_from_done)
        with ne show False by simp
      qed
      then have full: "length (take step (drop start xs)) = step" by simp
      from "1.prems"(2) u False
      have "g = take step (drop start xs) \<or> g \<in> set (butlast ?rest)" by simp
      then show ?thesis
      proof
        assume "g = take step (drop start xs)"
        then show ?thesis using full by simp
      next
        assume "g \<in> set (butlast ?rest)"
        then show ?thesis using "1.hyps" "1.prems"(1) \<open>start < length xs\<close> by blast
      qed
    qed
  qed
qed

lemma for_each_succeeds:
  assumes "\<And>x. x \<in> set xs \<Longrightarrow> \<exists>y. f x = Inr y"
  shows "\<exists>ys. for_each f xs = Inr ys \<and> length ys = length xs"
proof -
  have "for_each f xs = Inr (map (\<lambda>x. projr (f x)) xs)"
  proof (rule for_each_total)
    fix x assume "x \<in> set xs"
    then obtain y where "f x = Inr y" using assms by blast
    then show "f x = Inr (projr (f x))" by simp
  qed
  then show ?thesis by simp
qed

lemma refill_train_result:
  fixes vocab :: "('w, 'w Batch, 'r) ext"
  assumes md: "mode h \<noteq> ''decode''"
      and bs: "1 \<le> batch_size h"
      and nn: "0 \<le> max_dec_steps h"
      and a2i: "pointer_gen h \<longrightarrow> (\<forall>ws. length (fst (article2ids vocab ws)) = length ws)"
  shows "\<exists>fx fy inputs warns groups built.
           read_loop vocab h (fst (readline (fdx self))) (fst (readline (fdy self)))
             (snd (readline (fdx self))) (snd (readline (fdy self))) [] (warnings self)
             = Inr (fx, fy, inputs, warns)
         \<and> concat groups = (if single_pass then inputs else sort_key enc_len inputs)
         \<and> (\<forall>g \<in> set groups. g \<noteq> [] \<and> int (length g) \<le> batch_size h)
         \<and> (\<forall>g \<in> set (butlast groups). int (length g) = batch_size h)
         \<and> for_each (\<lambda>g. Batch_init g h vocab) groups = Inr built
         \<and> length built = length groups
         \<and> refill vocab h single_pass self
             = Some (Inr (self\<lparr>
                 batches := (if single_pass then batches self @ map snd built
                             else fst (shuffle vocab (rng self) (batches self @ map snd built))),
                 fdx := fx, fdy := fy,
                 rng := (if single_pass then rng self
                         else snd (shuffle vocab (rng self) (batches self @ map snd built))),
                 warnings := warns \<rparr>))
         \<and> length fx \<le> length (snd (readline (fdx self)))
         \<and> (fdx self = [] \<longrightarrow> inputs = [])"
proof -
  let ?k = "nat (batch_size h)"
  have k: "0 < ?k" using bs by simp
  obtain fx fy inputs warns where rl:
    "read_loop vocab h (fst (readline (fdx self))) (fst (readline (fdy self)))
             (snd (readline (fdx self))) (snd (readline (fdy self))) [] (warnings self)
             = Inr (fx, fy, [] @ inputs, warns)"
    "\<forall>ex \<in> set inputs. Example_ok h ex"
    "length fx \<le> length (snd (readline (fdx self)))"
    "fst (readline (fdx self)) = [] \<or> fst (readline (fdy self)) = [] \<longrightarrow> inputs = []"
    using read_loop_ok [OF nn a2i, of "[]"] by (metis empty_iff empty_set)
  define sorted_inputs where
    "sorted_inputs = (if single_pass then inputs else sort_key enc_len inputs)"
  define starts where "starts = xrange_from 0 (length sorted_inputs) ?k"
  define groups where "groups = map (\<lambda>s. take ?k (drop s sorted_inputs)) starts"
  have xr: "xrange0 (length sorted_inputs) (batch_size h) = Inr starts"
    using bs by (simp add: xrange0_def starts_def)
  have set_si: "set sorted_inputs = set inputs" by (simp add: sorted_inputs_def)
  have cg: "concat groups = sorted_inputs"
    using concat_chunks [OF k, of sorted_inputs 0] by (simp add: groups_def starts_def)
  have g1: "g \<noteq> [] \<and> int (length g) \<le> batch_size h \<and> set g \<subseteq> set inputs"
    if "g \<in> set groups" for g
  proof -
    from that obtain s where s: "s \<in> set starts" "g = take ?k (drop s sorted_inputs)"
      by (auto simp: groups_def)
    then have "s < length sorted_inputs" by (auto simp: starts_def dest: xrange_from_less)
    then have "g \<noteq> []" using s(2) k by simp
    moreover have "length g \<le> ?k" using s(2) by simp
    then have "int (length g) \<le> batch_size h" using bs by linarith
    moreover have "set g \<subseteq> set inputs"
      using s(2) set_si by (metis set_drop_subset set_take_subset subset_trans)
    ultimately show ?thesis using \<open>int (length g) \<le> batch_size h\<close> by simp
  qed
  have g2: "int (length g) = batch_size h" if "g \<in> set (butlast groups)" for g
  proof -
    have "length g = ?k"
      using that unfolding groups_def starts_def by (rule butlast_chunks_full [OF k])
    then show ?thesis using bs by simp
  qed
  have "\<exists>y. Batch_init g h vocab = Inr y" if "g \<in> set groups" for g
  proof -
    have "\<forall>ex \<in> set g. Example_ok h ex" using g1 [OF that] rl(2) by auto
    then show ?thesis
      using Batch_init_ok [of g h vocab] g1 [OF that] nn by blast
  qed
  then obtain built where built:
    "for_each (\<lambda>g. Batch_init g h vocab) groups = Inr built" "length built = length groups"
    using for_each_succeeds [of groups "\<lambda>g. Batch_init g h vocab"] by blast
  have "refill vocab h single_pass self
             = Some (Inr (self\<lparr>
                 batches := (if single_pass then batches self @ map snd built
                             else fst (shuffle vocab (rng self) (batches self @ map snd built))),
                 fdx := fx, fdy := fy,
                 rng := (if single_pass then rng self
                         else snd (shuffle vocab (rng self) (batches self @ map snd built))),
                 warnings := warns \<rparr>))"
  proof (cases single_pass)
    case True
    then show ?thesis
      using md rl(1) xr built(1) by (simp add: refill_def Let_def sorted_inputs_def groups_def)
  next
    case False
    then show ?thesis
      using md rl(1) xr built(1) by (simp add: refill_def Let_def sorted_inputs_def groups_def)
  qed
  moreover have "fdx self = [] \<longrightarrow> inputs = []"
    using rl(4) by (simp add: readline_eof)
  ultimately show ?thesis
    using rl(1,3) cg g1 g2 built unfolding sorted_inputs_def
    by (intro exI [of _ fx] exI [of _ fy] exI [of _ inputs] exI [of _ warns]
          exI [of _ groups] exI [of _ built]) simp
qed

lemma refill_train_progress:
  fixes vocab :: "('w, 'w Batch, 'r) ext"
  assumes md: "mode h \<noteq> ''decode''"
      and bs: "1 \<le> batch_size h"
      and nn: "0 \<le> max_dec_steps h"
      and a2i: "pointer_gen h \<longrightarrow> (\<forall>ws. length (fst (article2ids vocab ws)) = length ws)"
      and perm: "\<not> single_pass \<longrightarrow> (\<forall>r bs. mset (fst (shuffle vocab r bs)) = mset bs)"
      and empty: "batches self = []"
  shows "\<exists>self'. refill vocab h single_pass self = Some (Inr self')
           \<and> (batches self' = [] \<or> length (fdx self') < length (fdx self))"
proof -
  obtain fx fy inputs warns groups built where all:
    "read_loop vocab h (fst (readline (fdx self))) (fst (readline (fdy self)))
             (snd (readline (fdx self))) (snd (readline (fdy self))) [] (warnings self)
             = Inr (fx, fy, inputs, warns)
         \<and> concat groups = (if single_pass then inputs else sort_key enc_len inputs)
         \<and> (\<forall>g \<in> set groups. g \<noteq> [] \<and> int (length g) \<le> batch_size h)
         \<and> (\<forall>g \<in> set (butlast groups). int (length g) = batch_size h)
         \<and> for_each (\<lambda>g. Batch_init g h vocab) groups = Inr built
         \<and> length built = length groups
         \<and> refill vocab h single_pass self
             = Some (Inr (self\<lparr>
                 batches := (if single_pass then batches self @ map snd built
                             else fst (shuffle vocab (rng self) (batches self @ map snd built))),
                 fdx := fx, fdy := fy,
                 rng := (if single_pass then rng self
                         else snd (shuffle vocab (rng self) (batches self @ map snd built))),
                 warnings := warns \<rparr>))
         \<and> length fx \<le> length (snd (readline (fdx self)))
         \<and> (fdx self = [] \<longrightarrow> inputs = [])"
    using refill_train_result [OF md bs nn a2i, of self single_pass]
    by (elim exE) (rule that)
  have r: "concat groups = (if single_pass then inputs else sort_key enc_len inputs)"
    "\<forall>g \<in> set groups. g \<noteq> [] \<and> int (length g) \<le> batch_size h"
    "length built = length groups"
    "refill vocab h single_pass self
             = Some (Inr (self\<lparr>
                 batches := (if single_pass then batches self @ map snd built
                             else fst (shuffle vocab (rng self) (batches self @ map snd built))),
                 fdx := fx, fdy := fy,
                 rng := (if single_pass then rng self
                         else snd (shuffle vocab (rng self) (batches self @ map snd built))),
                 warnings := warns \<rparr>))"
    "length fx \<le> length (snd (readline (fdx self)))"
    "fdx self = [] \<longrightarrow> inputs = []"
    using all by blast+
  let ?self' = "self\<lparr>
                 batches := (if single_pass then batches self @ map snd built
                             else fst (shuffle vocab (rng self) (batches self @ map snd built))),
                 fdx := fx, fdy := fy,
                 rng := (if single_pass then rng self
                         else snd (shuffle vocab (rng self) (batches self @ map snd built))),
                 warnings := warns \<rparr>"
  have "batches ?self' = [] \<or> length (fdx ?self') < length (fdx self)"
  proof (cases "fdx self = []")
    case True
    then have "concat groups = []" using r(1,6) by simp
    then have "groups = []" using r(2) by (cases groups) auto
    then have "built = []" using r(3) by simp
    then have "batches self @ map snd built = []" using empty by simp
    moreover have "fst (shuffle vocab (rng self) []) = []" if "\<not> single_pass"
      using perm that by (metis mset_zero_iff_right)
    ultimately show ?thesis by simp
  next
    case False
    then have "length (snd (readline (fdx self))) < length (fdx self)"
      by (rule readline_consumes)
    then show ?thesis using r(5) by simp
  qed
  then show ?thesis using r(4) by blast
qed

section \<open>The generator\<close>

lemma pair_iter_loop_pop:
  "batches self = b # rest
     \<Longrightarrow> pair_iter_loop vocab h single_pass self yielded
         = pair_iter_loop vocab h single_pass (self\<lparr> batches := rest \<rparr>) (yielded @ [b])"
  by (subst pair_iter_loop.simps) simp

lemma pair_iter_loop_refill:
  "batches self = [] \<Longrightarrow> refill vocab h single_pass self = Some (Inr self')
     \<Longrightarrow> pair_iter_loop vocab h single_pass self yielded
         = (case batches self' of
              [] \<Rightarrow> Some (yielded, Inr self')
            | b # rest \<Rightarrow>
                pair_iter_loop vocab h single_pass (self'\<lparr> batches := rest \<rparr>) (yielded @ [b]))"
  by (subst pair_iter_loop.simps) simp

lemma pair_iter_loop_raise:
  "batches self = [] \<Longrightarrow> refill vocab h single_pass self = Some (Inl e)
     \<Longrightarrow> pair_iter_loop vocab h single_pass self yielded = Some (yielded, Inl e)"
  by (subst pair_iter_loop.simps) simp

lemma pair_iter_loop_train_returns:
  fixes vocab :: "('w, 'w Batch, 'r) ext"
  assumes md: "mode h \<noteq> ''decode''"
      and bs: "1 \<le> batch_size h"
      and nn: "0 \<le> max_dec_steps h"
      and a2i: "pointer_gen h \<longrightarrow> (\<forall>ws. length (fst (article2ids vocab ws)) = length ws)"
      and perm: "\<not> single_pass \<longrightarrow> (\<forall>r bs. mset (fst (shuffle vocab r bs)) = mset bs)"
  shows "\<exists>ys st. pair_iter_loop vocab h single_pass self yielded = Some (ys, Inr st)"
proof (induction "length (fdx self)" arbitrary: self yielded rule: less_induct)
  case less
  have empty_case: "\<exists>ys st. pair_iter_loop vocab h single_pass s y = Some (ys, Inr st)"
    if e: "batches s = []" and l: "length (fdx s) = length (fdx self)" for s y
  proof -
    obtain s1 where s1: "refill vocab h single_pass s = Some (Inr s1)"
      "batches s1 = [] \<or> length (fdx s1) < length (fdx s)"
      using refill_train_progress [OF md bs nn a2i perm e] by blast
    show ?thesis
    proof (cases "batches s1")
      case Nil
      then show ?thesis using pair_iter_loop_refill [OF e s1(1)] by simp
    next
      case (Cons b rest)
      then have "length (fdx (s1\<lparr> batches := rest \<rparr>)) < length (fdx self)"
        using s1(2) l by simp
      then have "\<exists>ys st. pair_iter_loop vocab h single_pass (s1\<lparr> batches := rest \<rparr>) (y @ [b])
                   = Some (ys, Inr st)"
        by (rule less.hyps)
      then show ?thesis using pair_iter_loop_refill [OF e s1(1)] Cons by simp
    qed
  qed
  have "\<exists>ys st. pair_iter_loop vocab h single_pass s y = Some (ys, Inr st)"
    if "batches s = bl" and "length (fdx s) = length (fdx self)" for bl s y
    using that
  proof (induction bl arbitrary: s y)
    case Nil
    then show ?case by (intro empty_case)
  next
    case (Cons b rest)
    have "\<exists>ys st. pair_iter_loop vocab h single_pass (s\<lparr> batches := rest \<rparr>) (y @ [b])
            = Some (ys, Inr st)"
      using Cons.prems by (intro Cons.IH) simp_all
    then show ?case using pair_iter_loop_pop [OF Cons.prems(1)] by simp
  qed
  then show ?case by blast
qed

lemma pair_iter_loop_decode_raises:
  fixes vocab :: "('w, 'w Batch, 'r) ext"
  assumes dm: "mode h = ''decode''"
      and bs: "1 \<le> batch_size h"
      and nn: "0 \<le> max_dec_steps h"
      and a2i: "pointer_gen h \<longrightarrow> (\<forall>ws. length (fst (article2ids vocab ws)) = length ws)"
  shows "\<exists>ys. pair_iter_loop vocab h single_pass self yielded = Some (ys, Inl ValueError)"
proof (induction "2 * length (fdx self) + length (batches self)" arbitrary: self yielded
         rule: less_induct)
  case less
  show ?case
  proof (cases "batches self")
    case (Cons b rest)
    have "2 * length (fdx (self\<lparr> batches := rest \<rparr>)) + length (batches (self\<lparr> batches := rest \<rparr>))
            < 2 * length (fdx self) + length (batches self)"
      using Cons by simp
    then have "\<exists>ys. pair_iter_loop vocab h single_pass (self\<lparr> batches := rest \<rparr>) (yielded @ [b])
                 = Some (ys, Inl ValueError)"
      by (rule less.hyps)
    then show ?thesis using pair_iter_loop_pop [OF Cons] by simp
  next
    case Nil
    show ?thesis
    proof (cases "fdx self = [] \<or> fdy self = []")
      case True
      then have "refill vocab h single_pass self = Some (Inl ValueError)"
        using dm by (intro refill_decode_eof)
      then show ?thesis using pair_iter_loop_raise [OF Nil] by blast
    next
      case False
      then have l: "fst (readline (fdx self)) \<noteq> []" "fst (readline (fdy self)) \<noteq> []"
        by (simp_all add: readline_line_nonempty)
      obtain ex where ex:
        "Example_init vocab h (remove_nonascii vocab (fst (readline (fdx self))))
           (remove_nonascii vocab (fst (readline (fdy self)))) = Inr ex" "Example_ok h ex"
        using Example_init_ok [OF nn a2i] by blast
      let ?batch = "replicate (nat (batch_size h)) ex"
      have "decode_loop vocab h (fst (readline (fdx self))) (fst (readline (fdy self))) []
              = Some (Inr ([] @ replicate (nat (batch_size h) - length ([] :: 'w Example list)) ex))"
        using l ex(1) bs by (intro decode_loop_fills) simp_all
      then have dl: "decode_loop vocab h (fst (readline (fdx self))) (fst (readline (fdy self))) []
                       = Some (Inr ?batch)" by simp
      have "?batch \<noteq> []" "int (length ?batch) \<le> batch_size h" "\<forall>e \<in> set ?batch. Example_ok h e"
        using bs ex(2) by auto
      then obtain exs b where b: "Batch_init ?batch h vocab = Inr (exs, b)"
        using Batch_init_ok [of ?batch h vocab] nn by blast
      let ?self' = "self\<lparr> batches := batches self @ [b],
                          fdx := snd (readline (fdx self)),
                          fdy := snd (readline (fdy self)) \<rparr>"
      have r: "refill vocab h single_pass self = Some (Inr ?self')"
        using dm by (simp add: refill_def dl b)
      have "length (snd (readline (fdx self))) < length (fdx self)"
        using False by (intro readline_consumes) simp
      then have "2 * length (fdx (?self'\<lparr> batches := [] \<rparr>))
                   + length (batches (?self'\<lparr> batches := [] \<rparr>))
                 < 2 * length (fdx self) + length (batches self)"
        by simp
      then have "\<exists>ys. pair_iter_loop vocab h single_pass (?self'\<lparr> batches := [] \<rparr>) (yielded @ [b])
                   = Some (ys, Inl ValueError)"
        by (rule less.hyps)
      then show ?thesis using pair_iter_loop_refill [OF Nil r] Nil by simp
    qed
  qed
qed

section \<open>Sorting, grouping and shuffling\<close>

lemma for_each_nth:
  "for_each f xs = Inr ys \<Longrightarrow> i < length xs \<Longrightarrow> f (xs ! i) = Inr (ys ! i)"
proof (induction xs arbitrary: ys i)
  case Nil
  then show ?case by simp
next
  case (Cons x xs)
  from Cons.prems(1) obtain y ys' where y: "f x = Inr y" "for_each f xs = Inr ys'" "ys = y # ys'"
    by (auto split: sum.splits)
  show ?case
  proof (cases i)
    case 0
    then show ?thesis using y by simp
  next
    case (Suc j)
    then show ?thesis using Cons.IH [OF y(2), of j] Cons.prems(2) y(3) by simp
  qed
qed

text \<open>
  C6.  Outside decode mode (with \<open>batch_size \<ge> 1\<close>) \<open>refill\<close> cuts the examples it has
  read into consecutive groups: every group is non-empty and has at most \<open>batch_size\<close>
  examples, every group but the last has exactly \<open>batch_size\<close>, and one batch is built
  from each group.  When \<open>single_pass\<close> is false the groups are cut from the examples
  sorted by \<open>enc_len\<close> (a stable sort into non-decreasing order), and \<open>self.batches\<close> is
  what the shuffle returns for the list of batches, a permutation of it.  When
  \<open>single_pass\<close> is true the groups are cut from the examples in the order in which they
  were read, the batches are appended in that order, and the random number generator is
  not used.  In decode mode a call that returns has appended one batch and has not used
  the random number generator.
\<close>

theorem refill_sorts_then_shuffles:
  fixes vocab :: "('w, 'w Batch, 'r) ext"
  assumes bs: "1 \<le> batch_size h"
      and nn: "0 \<le> max_dec_steps h"
      and a2i: "pointer_gen h \<longrightarrow> (\<forall>ws. length (fst (article2ids vocab ws)) = length ws)"
      and perm: "\<not> single_pass \<longrightarrow> (\<forall>r bl. mset (fst (shuffle vocab r bl)) = mset bl)"
  shows "(mode h \<noteq> ''decode'' \<longrightarrow>
          (\<exists>fx fy inputs warns groups built self'.
           read_loop vocab h (fst (readline (fdx self))) (fst (readline (fdy self)))
             (snd (readline (fdx self))) (snd (readline (fdy self))) [] (warnings self)
             = Inr (fx, fy, inputs, warns)
         \<and> concat groups = (if single_pass then inputs else sort_key enc_len inputs)
         \<and> sorted (map enc_len (sort_key enc_len inputs))
         \<and> mset (sort_key enc_len inputs) = mset inputs
         \<and> (\<forall>g \<in> set groups. g \<noteq> [] \<and> int (length g) \<le> batch_size h)
         \<and> (\<forall>g \<in> set (butlast groups). int (length g) = batch_size h)
         \<and> length built = length groups
         \<and> (\<forall>i < length groups. Batch_init (groups ! i) h vocab = Inr (built ! i))
         \<and> refill vocab h single_pass self = Some (Inr self')
         \<and> batches self'
             = (if single_pass then batches self @ map snd built
                else fst (shuffle vocab (rng self) (batches self @ map snd built)))
         \<and> mset (batches self') = mset (batches self @ map snd built)
         \<and> (single_pass \<longrightarrow> rng self' = rng self)))
       \<and> (mode h = ''decode'' \<longrightarrow>
            (\<forall>self'. refill vocab h single_pass self = Some (Inr self') \<longrightarrow>
               rng self' = rng self \<and> (\<exists>b. batches self' = batches self @ [b])))"
proof (intro conjI impI allI)
  assume md: "mode h \<noteq> ''decode''"
  show "\<exists>fx fy inputs warns groups built self'.
           read_loop vocab h (fst (readline (fdx self))) (fst (readline (fdy self)))
             (snd (readline (fdx self))) (snd (readline (fdy self))) [] (warnings self)
             = Inr (fx, fy, inputs, warns)
         \<and> concat groups = (if single_pass then inputs else sort_key enc_len inputs)
         \<and> sorted (map enc_len (sort_key enc_len inputs))
         \<and> mset (sort_key enc_len inputs) = mset inputs
         \<and> (\<forall>g \<in> set groups. g \<noteq> [] \<and> int (length g) \<le> batch_size h)
         \<and> (\<forall>g \<in> set (butlast groups). int (length g) = batch_size h)
         \<and> length built = length groups
         \<and> (\<forall>i < length groups. Batch_init (groups ! i) h vocab = Inr (built ! i))
         \<and> refill vocab h single_pass self = Some (Inr self')
         \<and> batches self'
             = (if single_pass then batches self @ map snd built
                else fst (shuffle vocab (rng self) (batches self @ map snd built)))
         \<and> mset (batches self') = mset (batches self @ map snd built)
         \<and> (single_pass \<longrightarrow> rng self' = rng self)"
  proof -
    obtain fx fy inputs warns groups built where all:
      "read_loop vocab h (fst (readline (fdx self))) (fst (readline (fdy self)))
               (snd (readline (fdx self))) (snd (readline (fdy self))) [] (warnings self)
               = Inr (fx, fy, inputs, warns)
           \<and> concat groups = (if single_pass then inputs else sort_key enc_len inputs)
           \<and> (\<forall>g \<in> set groups. g \<noteq> [] \<and> int (length g) \<le> batch_size h)
           \<and> (\<forall>g \<in> set (butlast groups). int (length g) = batch_size h)
           \<and> for_each (\<lambda>g. Batch_init g h vocab) groups = Inr built
           \<and> length built = length groups
           \<and> refill vocab h single_pass self
               = Some (Inr (self\<lparr>
                   batches := (if single_pass then batches self @ map snd built
                               else fst (shuffle vocab (rng self) (batches self @ map snd built))),
                   fdx := fx, fdy := fy,
                   rng := (if single_pass then rng self
                           else snd (shuffle vocab (rng self) (batches self @ map snd built))),
                   warnings := warns \<rparr>))
           \<and> length fx \<le> length (snd (readline (fdx self)))
           \<and> (fdx self = [] \<longrightarrow> inputs = [])"
      using refill_train_result [OF md bs nn a2i, of self single_pass]
      by (elim exE) (rule that)
    define self' where
      "self' = self\<lparr>
                   batches := (if single_pass then batches self @ map snd built
                               else fst (shuffle vocab (rng self) (batches self @ map snd built))),
                   fdx := fx, fdy := fy,
                   rng := (if single_pass then rng self
                           else snd (shuffle vocab (rng self) (batches self @ map snd built))),
                   warnings := warns \<rparr>"
    have r1: "read_loop vocab h (fst (readline (fdx self))) (fst (readline (fdy self)))
               (snd (readline (fdx self))) (snd (readline (fdy self))) [] (warnings self)
               = Inr (fx, fy, inputs, warns)"
      and r2: "concat groups = (if single_pass then inputs else sort_key enc_len inputs)"
      and r3: "\<forall>g \<in> set groups. g \<noteq> [] \<and> int (length g) \<le> batch_size h"
      and r4: "\<forall>g \<in> set (butlast groups). int (length g) = batch_size h"
      and r5: "for_each (\<lambda>g. Batch_init g h vocab) groups = Inr built"
      and r6: "length built = length groups"
      and r7: "refill vocab h single_pass self = Some (Inr self')"
      using all unfolding self'_def by blast+
    have s1: "sorted (map enc_len (sort_key enc_len inputs))" by (rule sorted_sort_key)
    have s2: "mset (sort_key enc_len inputs) = mset inputs" by simp
    have n: "\<forall>i < length groups. Batch_init (groups ! i) h vocab = Inr (built ! i)"
      using for_each_nth [OF r5] by simp
    have b: "batches self'
               = (if single_pass then batches self @ map snd built
                  else fst (shuffle vocab (rng self) (batches self @ map snd built)))"
      by (simp add: self'_def)
    have m: "mset (batches self') = mset (batches self @ map snd built)"
      using perm by (simp add: self'_def)
    have g: "single_pass \<longrightarrow> rng self' = rng self" by (simp add: self'_def)
    show ?thesis
      using r1 r2 s1 s2 r3 r4 r6 n r7 b m g
      by (intro exI [of _ fx] exI [of _ fy] exI [of _ inputs] exI [of _ warns]
            exI [of _ groups] exI [of _ built] exI [of _ self'] conjI)
  qed
next
  fix self'
  assume dm: "mode h = ''decode''"
     and run: "refill vocab h single_pass self = Some (Inr self')"
  then show "rng self' = rng self"
    by (auto simp: refill_def split: option.splits sum.splits prod.splits)
  from dm run show "\<exists>b. batches self' = batches self @ [b]"
    by (auto simp: refill_def split: option.splits sum.splits prod.splits)
qed

theorem refill_sorts_then_shuffles_witness:
  "mode demo_hps \<noteq> ''decode''
   \<and> 1 \<le> batch_size demo_hps
   \<and> 0 \<le> max_dec_steps demo_hps
   \<and> (\<forall>ws. length (fst (article2ids demo_vocab ws)) = length ws)
   \<and> (\<forall>r bl. mset (fst (shuffle demo_vocab r bl)) = mset bl)
   \<and> (\<exists>self'. refill demo_vocab demo_hps False
          \<lparr> batches = [], fdx = [CHR ''a'', CHR ''b'', newline, CHR ''b'', newline],
            fdy = [CHR ''a'', newline, CHR ''b'', newline], rng = 0 :: nat, warnings = [] \<rparr>
        = Some (Inr self'))"
proof -
  have h1: "mode demo_hps \<noteq> ''decode''" by (simp add: demo_hps_def)
  have h2: "1 \<le> batch_size demo_hps" by (simp add: demo_hps_def)
  have h3: "0 \<le> max_dec_steps demo_hps" by (simp add: demo_hps_def)
  have h4: "\<forall>ws. length (fst (article2ids demo_vocab ws)) = length ws"
    by (simp add: demo_vocab_def length_article2ids_model)
  then have h4': "pointer_gen demo_hps \<longrightarrow>
                    (\<forall>ws. length (fst (article2ids demo_vocab ws)) = length ws)" by simp
  have h5: "\<forall>r bl. mset (fst (shuffle demo_vocab r bl)) = mset bl"
    by (simp add: demo_vocab_def)
  then have h5': "\<not> False \<longrightarrow> (\<forall>r bl. mset (fst (shuffle demo_vocab r bl)) = mset bl)" by simp
  have "\<exists>self'. refill demo_vocab demo_hps False
          \<lparr> batches = [], fdx = [CHR ''a'', CHR ''b'', newline, CHR ''b'', newline],
            fdy = [CHR ''a'', newline, CHR ''b'', newline], rng = 0 :: nat, warnings = [] \<rparr>
        = Some (Inr self')"
    using refill_sorts_then_shuffles [OF h2 h3 h4' h5',
        where self = "\<lparr> batches = [], fdx = [CHR ''a'', CHR ''b'', newline, CHR ''b'', newline],
            fdy = [CHR ''a'', newline, CHR ''b'', newline], rng = 0 :: nat, warnings = [] \<rparr>",
        THEN conjunct1, THEN mp, OF h1]
    by (elim exE conjE) (rule exI, assumption)
  then show ?thesis using h1 h2 h3 h4 h5 by simp
qed

section \<open>Empty articles, exhausted and malformed input\<close>

text \<open>
  C3 does not hold in decode mode: that branch of \<open>refill\<close> has no test for an empty
  article.  Here the next line of the article file is empty once the line terminator is
  removed; the call logs no warning and appends a batch built from two examples with the
  empty article.  Outside decode mode the pair is skipped with a warning
  (\<open>read_loop_skips_empty_article\<close>).
\<close>

theorem refill_decode_keeps_empty_article:
  "map_option (map_sum id (\<lambda>self. (map original_articles (batches self), fdx self, warnings self)))
     (refill demo_vocab demo_decode_hps True
        \<lparr> batches = [], fdx = [newline, CHR ''b'', newline],
          fdy = [CHR ''a'', newline, CHR ''b'', newline], rng = 0 :: nat, warnings = [] \<rparr>)
   = Some (Inr ([[[], []]], [CHR ''b'', newline], []))"
  by code_simp

text \<open>
  C4 does not hold in decode mode: when the files are exhausted \<open>refill\<close> builds a batch
  from the empty list, and \<open>max\<close> of the empty list raises.  Here both files have two
  lines; the generator yields two batches and then ends with \<open>ValueError\<close>.  The same
  happens for all files in decode mode (\<open>pair_iter_loop_decode_raises\<close>); outside decode
  mode the generator returns normally (\<open>pair_iter_loop_train_returns\<close>).
\<close>

theorem pair_iter_decode_ends_in_ValueError:
  "map_option (map_prod (map original_articles) (map_sum id fdx))
     (pair_iter aligned_files ''d'' demo_vocab demo_decode_hps True (0 :: nat))
   = Some ([[''ab'', ''ab''], [''b'', ''b'']], Inl ValueError)"
  by code_simp

text \<open>
  C5 (as the code has it).  When one of the two files is missing, \<open>open\<close> raises
  \<open>IOError\<close> and nothing is yielded.  The line counts are never compared: outside decode
  mode (with \<open>batch_size \<ge> 1\<close> and \<open>max_dec_steps \<ge> 0\<close>) the generator returns without an
  error for all contents of the two files, and the loop that reads the lines ends
  without an error as soon as one of the files is exhausted.
\<close>

theorem pair_iter_malformed_input:
  fixes vocab :: "('w, 'w Batch, 'r) ext"
  shows "(files (data_path @ ''.x.txt'') = None \<or> files (data_path @ ''.y.txt'') = None
            \<longrightarrow> pair_iter files data_path vocab h single_pass seed = Some ([], Inl IOError))
       \<and> (files (data_path @ ''.x.txt'') \<noteq> None \<and> files (data_path @ ''.y.txt'') \<noteq> None
          \<and> mode h \<noteq> ''decode'' \<and> 1 \<le> batch_size h \<and> 0 \<le> max_dec_steps h
          \<and> (pointer_gen h \<longrightarrow> (\<forall>ws. length (fst (article2ids vocab ws)) = length ws))
          \<and> (\<not> single_pass \<longrightarrow> (\<forall>r bl. mset (fst (shuffle vocab r bl)) = mset bl))
            \<longrightarrow> (\<exists>ys st. pair_iter files data_path vocab h single_pass seed = Some (ys, Inr st)))
       \<and> (linex = [] \<or> liney = []
            \<longrightarrow> read_loop vocab h linex liney fx fy inputs warns = Inr (fx, fy, inputs, warns))"
proof (intro conjI impI)
  assume "files (data_path @ ''.x.txt'') = None \<or> files (data_path @ ''.y.txt'') = None"
  then show "pair_iter files data_path vocab h single_pass seed = Some ([], Inl IOError)"
    by (auto simp: pair_iter_def split: option.splits)
next
  assume a: "files (data_path @ ''.x.txt'') \<noteq> None \<and> files (data_path @ ''.y.txt'') \<noteq> None
          \<and> mode h \<noteq> ''decode'' \<and> 1 \<le> batch_size h \<and> 0 \<le> max_dec_steps h
          \<and> (pointer_gen h \<longrightarrow> (\<forall>ws. length (fst (article2ids vocab ws)) = length ws))
          \<and> (\<not> single_pass \<longrightarrow> (\<forall>r bl. mset (fst (shuffle vocab r bl)) = mset bl))"
  then obtain cx cy where f: "files (data_path @ ''.x.txt'') = Some cx"
    "files (data_path @ ''.y.txt'') = Some cy" by auto
  from a have md: "mode h \<noteq> ''decode''" and bs: "1 \<le> batch_size h"
    and nn: "0 \<le> max_dec_steps h"
    and a2i: "pointer_gen h \<longrightarrow> (\<forall>ws. length (fst (article2ids vocab ws)) = length ws)"
    and perm: "\<not> single_pass \<longrightarrow> (\<forall>r bl. mset (fst (shuffle vocab r bl)) = mset bl)"
    by blast+
  show "\<exists>ys st. pair_iter files data_path vocab h single_pass seed = Some (ys, Inr st)"
    using pair_iter_loop_train_returns [OF md bs nn a2i perm]
    by (simp add: pair_iter_def f)
next
  assume "linex = [] \<or> liney = []"
  then show "read_loop vocab h linex liney fx fy inputs warns = Inr (fx, fy, inputs, warns)"
    by (rule read_loop_stops_at_eof)
qed

theorem pair_iter_malformed_input_witness:
  "pair_iter Map.empty ''d'' demo_vocab demo_hps True (0 :: nat) = Some ([], Inl IOError)
   \<and> mismatched_files ''d.x.txt'' \<noteq> None \<and> mismatched_files ''d.y.txt'' \<noteq> None
   \<and> mode demo_hps \<noteq> ''decode'' \<and> 1 \<le> batch_size demo_hps \<and> 0 \<le> max_dec_steps demo_hps
   \<and> (\<forall>ws. length (fst (article2ids demo_vocab ws)) = length ws)
   \<and> (\<exists>ys st. pair_iter mismatched_files ''d'' demo_vocab demo_hps True (0 :: nat)
                 = Some (ys, Inr st))"
proof -
  have f: "mismatched_files (''d'' @ ''.x.txt'') \<noteq> None"
    "mismatched_files (''d'' @ ''.y.txt'') \<noteq> None"
    by (simp_all add: mismatched_files_def)
  have h1: "mode demo_hps \<noteq> ''decode''" by (simp add: demo_hps_def)
  have h2: "1 \<le> batch_size demo_hps" by (simp add: demo_hps_def)
  have h3: "0 \<le> max_dec_steps demo_hps" by (simp add: demo_hps_def)
  have h4: "\<forall>ws. length (fst (article2ids demo_vocab ws)) = length ws"
    by (simp add: demo_vocab_def length_article2ids_model)
  have a: "pair_iter Map.empty ''d'' demo_vocab demo_hps True (0 :: nat) = Some ([], Inl IOError)"
    using pair_iter_malformed_input [of Map.empty "''d''" demo_vocab demo_hps True "0 :: nat"]
    by simp
  have b: "\<exists>ys st. pair_iter mismatched_files ''d'' demo_vocab demo_hps True (0 :: nat)
                 = Some (ys, Inr st)"
    using pair_iter_malformed_input [of mismatched_files "''d''" demo_vocab demo_hps True "0 :: nat"]
      f h1 h2 h3 h4
    by simp
  show ?thesis using a b f h1 h2 h3 h4 by simp
qed

text \<open>
  C5 (as the claim words it) fails for mismatched line counts: with two article lines and
  one abstract line the generator yields the batch of the first pair and returns without
  an error; the second article line is read and dropped.
\<close>

theorem pair_iter_ignores_surplus_lines:
  "map_option (map_prod (map original_articles) isl)
     (pair_iter mismatched_files ''d'' demo_vocab demo_hps True (0 :: nat))
   = Some ([[''ab'']], False)"
  by code_simp

end
